theory Spec2Isabelle
  imports Main
begin

section \<open>JavaScript values\<close>

text \<open>
  Pipelines are plain JavaScript data: no getters, no \<open>toJSON\<close> methods, no prototypes
  of their own.  An object is kept as the list of its own properties in enumeration
  order (the order of \<open>Object.keys\<close>); numbers are the integer literals that pipelines
  carry (the code only compares a number with \<open>1\<close>); strings are character lists.
\<close>

datatype jsval =
    JUndefined
  | JNull
  | JBool bool
  | JNum int
  | JStr string
  | JArr "jsval list"
  | JObj "(string \<times> jsval) list"

text \<open>
  What the code can throw: \<open>new Error(message)\<close>, written by the code itself, and the
  \<open>TypeError\<close> that the runtime raises when a property of \<open>undefined\<close> or \<open>null\<close> is
  touched or when a value that is no function is called.
\<close>

datatype error = Error string | TypeError

type_synonym obj = "(string \<times> jsval) list"

subsection \<open>Property keys and their order\<close>

definition is_digit :: "char \<Rightarrow> bool" where
  "is_digit c = (c \<in> set ''0123456789'')"

definition nat_of_digits :: "string \<Rightarrow> nat" where
  "nat_of_digits s = foldl (\<lambda>n c. 10 * n + (of_char c - 48)) 0 s"

text \<open>
  An array index is the canonical decimal numeral of an integer below \<open>2^32 - 1\<close>.
  An object enumerates such keys first, in ascending numeric order, and every other
  string key after them in the order of creation.
\<close>

definition is_array_index :: "string \<Rightarrow> bool" where
  "is_array_index k =
     (k \<noteq> [] \<and> list_all is_digit k \<and> (if take 1 k = ''0'' then length k = 1 else True)
      \<and> nat_of_digits k < 4294967295)"

fun insert_index :: "string \<Rightarrow> jsval \<Rightarrow> obj \<Rightarrow> obj" where
  "insert_index k v [] = [(k, v)]"
| "insert_index k v ((k', v') # kvs) =
     (if is_array_index k' \<and> nat_of_digits k' < nat_of_digits k
      then (k', v') # insert_index k v kvs
      else (k, v) # (k', v') # kvs)"

fun overwrite :: "string \<Rightarrow> jsval \<Rightarrow> obj \<Rightarrow> obj" where
  "overwrite k v [] = []"
| "overwrite k v ((k', v') # kvs) =
     (if k' = k then (k', v) # overwrite k v kvs else (k', v') # overwrite k v kvs)"

text \<open>
  Defining the own property \<open>k\<close> of an object: an existing key keeps its place and
  takes the new value, a new key goes where the enumeration order puts it.  Object
  literals with computed keys, the spread \<open>{...o}\<close> and lodash's \<open>zipObject\<close> all
  create properties this way.
\<close>

definition obj_set :: "string \<Rightarrow> jsval \<Rightarrow> obj \<Rightarrow> obj" where
  "obj_set k v kvs =
     (if k \<in> set (map fst kvs) then overwrite k v kvs
      else if is_array_index k then insert_index k v kvs
      else kvs @ [(k, v)])"

text \<open>
  The assignment \<open>o[k] = v\<close> on an object created by a literal.  It defines the own
  property, except for the key \<open>__proto__\<close>, which reaches the setter inherited from
  \<open>Object.prototype\<close>: for a string \<open>v\<close> the setter does nothing.  (The code assigns
  objects only under keys that end in a suffix such as \<open>_sum\<close>, never \<open>__proto__\<close>.)
\<close>

definition obj_assign :: "string \<Rightarrow> jsval \<Rightarrow> obj \<Rightarrow> obj" where
  "obj_assign k v kvs = (if k = ''__proto__'' then kvs else obj_set k v kvs)"

text \<open>The spread \<open>{...base, ...src}\<close> copies the properties of \<open>src\<close> in order.\<close>

definition obj_spread :: "obj \<Rightarrow> obj \<Rightarrow> obj" where
  "obj_spread base src = foldl (\<lambda>acc (k, v). obj_set k v acc) base src"

definition obj_get :: "obj \<Rightarrow> string \<Rightarrow> jsval" where
  "obj_get kvs k = (case map_of kvs k of None \<Rightarrow> JUndefined | Some v \<Rightarrow> v)"

definition obj_delete :: "string \<Rightarrow> (string \<times> 'a) list \<Rightarrow> (string \<times> 'a) list" where
  "obj_delete k kvs = filter (\<lambda>(k', v). k' \<noteq> k) kvs"

subsection \<open>The operations of the language and of lodash that the code calls\<close>

fun string_of_nat :: "nat \<Rightarrow> string" where
  "string_of_nat n =
     (if n < 10 then [char_of (48 + n)]
      else string_of_nat (n div 10) @ [char_of (48 + n mod 10)])"

declare string_of_nat.simps [simp del]

definition index_keys :: "nat \<Rightarrow> string list" where
  "index_keys n = map string_of_nat [0..<n]"

text \<open>\<open>xs[i]\<close> on an array: \<open>undefined\<close> out of range.\<close>

definition at :: "jsval list \<Rightarrow> nat \<Rightarrow> jsval" where
  "at xs i = (if i < length xs then xs ! i else JUndefined)"

text \<open>\<open>ks[0]\<close> on an array of strings, \<open>None\<close> standing for \<open>undefined\<close>.\<close>

definition first :: "string list \<Rightarrow> string option" where
  "first ks = (case ks of [] \<Rightarrow> None | k # _ \<Rightarrow> Some k)"

text \<open>\<open>Object.keys(v)\<close>: throws on \<open>undefined\<close> and \<open>null\<close>, boxes the other primitives.\<close>

fun object_keys :: "jsval \<Rightarrow> error + string list" where
  "object_keys JUndefined = Inl TypeError"
| "object_keys JNull = Inl TypeError"
| "object_keys (JBool b) = Inr []"
| "object_keys (JNum n) = Inr []"
| "object_keys (JStr s) = Inr (index_keys (length s))"
| "object_keys (JArr xs) = Inr (index_keys (length xs))"
| "object_keys (JObj kvs) = Inr (map fst kvs)"

text \<open>
  Reading the property \<open>v.name\<close>, for a name that is neither an array index nor
  \<open>length\<close> nor inherited from a prototype (the code reads \<open>$group\<close> and \<open>_id\<close>).
\<close>

fun get_prop :: "jsval \<Rightarrow> string \<Rightarrow> error + jsval" where
  "get_prop JUndefined name = Inl TypeError"
| "get_prop JNull name = Inl TypeError"
| "get_prop (JObj kvs) name = Inr (obj_get kvs name)"
| "get_prop v name = Inr JUndefined"

text \<open>\<open>delete v.name\<close> for such a name, returning the value of the variable afterwards.\<close>

fun delete_prop :: "jsval \<Rightarrow> string \<Rightarrow> error + jsval" where
  "delete_prop JUndefined name = Inl TypeError"
| "delete_prop JNull name = Inl TypeError"
| "delete_prop (JObj kvs) name = Inr (JObj (obj_delete name kvs))"
| "delete_prop v name = Inr v"

text \<open>lodash \<open>values\<close> and \<open>toPairs\<close>: the own enumerable string-keyed properties.\<close>

fun values_of :: "jsval \<Rightarrow> jsval list" where
  "values_of (JObj kvs) = map snd kvs"
| "values_of (JArr xs) = xs"
| "values_of (JStr s) = map (\<lambda>c. JStr [c]) s"
| "values_of v = []"

fun toPairs :: "jsval \<Rightarrow> (string \<times> jsval) list" where
  "toPairs (JObj kvs) = kvs"
| "toPairs (JArr xs) = zip (index_keys (length xs)) xs"
| "toPairs (JStr s) = zip (index_keys (length s)) (map (\<lambda>c. JStr [c]) s)"
| "toPairs v = []"

text \<open>lodash \<open>isObject\<close>: objects and arrays, not \<open>null\<close>.\<close>

fun isObject :: "jsval \<Rightarrow> bool" where
  "isObject (JObj kvs) = True"
| "isObject (JArr xs) = True"
| "isObject v = False"

text \<open>
  \<open>JSON.parse(JSON.stringify(v))\<close> on a value: a property whose value is
  \<open>undefined\<close> is left out, an array element \<open>undefined\<close> becomes \<open>null\<close>.
\<close>

fun json_clone :: "jsval \<Rightarrow> jsval"
  and json_clone_props :: "obj \<Rightarrow> obj"
  and json_clone_elems :: "jsval list \<Rightarrow> jsval list" where
  "json_clone (JObj kvs) = JObj (json_clone_props kvs)"
| "json_clone (JArr xs) = JArr (json_clone_elems xs)"
| "json_clone v = v"
| "json_clone_props [] = []"
| "json_clone_props ((k, v) # kvs) =
     (if v = JUndefined then json_clone_props kvs else (k, json_clone v) # json_clone_props kvs)"
| "json_clone_elems [] = []"
| "json_clone_elems (x # xs) =
     (if x = JUndefined then JNull else json_clone x) # json_clone_elems xs"

section \<open>query\_cube.js: checkCompatibility\<close>

type_synonym tuple = "string \<times> string \<times> string"

definition not_group_msg :: string where
  "not_group_msg = ''pipeline incompatible, must start with $group stage.''"

definition unsupported_msg :: string where
  "unsupported_msg =
     ''pipeline incompatible, only $sum, $min, $max, $avg aggregate functions supported.''"

definition supported_ops :: "string list" where
  "supported_ops = [''$sum'', ''$min'', ''$max'', ''$avg'']"

text \<open>\<open>["$sum", "$min", "$max", "$avg"].includes(op)\<close>, where \<open>op\<close> may be \<open>undefined\<close>.\<close>

definition includes_op :: "string option \<Rightarrow> bool" where
  "includes_op op = (case op of None \<Rightarrow> False | Some k \<Rightarrow> k \<in> set supported_ops)"

text \<open>
  \<open>values(group).every((val) => ...)\<close>: the callback runs on the values in order and
  stops at the first one it rejects; \<open>Object.keys(val)\<close> inside it can throw.
\<close>

fun every_supported :: "jsval list \<Rightarrow> error + bool" where
  "every_supported [] = Inr True"
| "every_supported (val # vals) =
     (case object_keys val of
        Inl e \<Rightarrow> Inl e
      | Inr ks \<Rightarrow> if includes_op (first ks) then every_supported vals else Inr False)"

text \<open>\<open>s.slice(1)\<close>: a string method; calling it on a value without it throws.\<close>

fun slice1 :: "jsval \<Rightarrow> error + string" where
  "slice1 (JStr s) = Inr (drop 1 s)"
| "slice1 v = Inl TypeError"

text \<open>
  The callback of \<open>toPairs(group).map\<close>, lines 41 to 50: \<open>Object.keys(val)[0]\<close>
  and \<open>values(val)[0]\<close> are the first key and the first value of the accumulator.
\<close>

definition make_tuple :: "string \<times> jsval \<Rightarrow> error + tuple" where
  "make_tuple fv =
     (case fv of (field, val) \<Rightarrow>
       (case object_keys val of
          Inl e \<Rightarrow> Inl e
        | Inr ks \<Rightarrow>
          (case first ks of
             None \<Rightarrow> Inl TypeError
           | Some k \<Rightarrow>
             (let op = drop 1 k;
                  meas = at (values_of val) 0
              in if isObject meas \<or> meas = JNum 1
                 then Inr (field, ''count'', drop 1 ''$count'')
                 else (case slice1 meas of
                         Inl e \<Rightarrow> Inl e
                       | Inr m \<Rightarrow> Inr (field, op, m))))))"

fun map_tuples :: "(string \<times> jsval) list \<Rightarrow> error + tuple list" where
  "map_tuples [] = Inr []"
| "map_tuples (fv # fvs) =
     (case make_tuple fv of
        Inl e \<Rightarrow> Inl e
      | Inr t \<Rightarrow> (case map_tuples fvs of Inl e \<Rightarrow> Inl e | Inr ts \<Rightarrow> Inr (t # ts)))"

text \<open>Lines 28 to 51, on the grouping stage from which \<open>_id\<close> has been deleted.\<close>

definition scan_group :: "jsval \<Rightarrow> error + tuple list" where
  "scan_group grp =
     (case every_supported (values_of grp) of
        Inl e \<Rightarrow> Inl e
      | Inr valid \<Rightarrow>
        if \<not> valid then Inl (Error unsupported_msg)
        else map_tuples (toPairs grp))"

definition checkCompatibility :: "jsval list \<Rightarrow> error + tuple list" where
  "checkCompatibility ppl =
     (case object_keys (at ppl 0) of
        Inl e \<Rightarrow> Inl e
      | Inr ks \<Rightarrow>
        if first ks \<noteq> Some ''$group'' then Inl (Error not_group_msg)
        else
          (let ppl' = json_clone_elems ppl in
           case get_prop (at ppl' 0) ''$group'' of
             Inl e \<Rightarrow> Inl e
           | Inr group0 \<Rightarrow>
             (case delete_prop group0 ''_id'' of
                Inl e \<Rightarrow> Inl e
              | Inr grp \<Rightarrow> scan_group grp)))"

section \<open>query\_cube.js: createPipeline and queryCube\<close>

record builders =
  measGroup :: obj
  measSet :: obj
  measProject :: obj

text \<open>The body of \<open>tuples.forEach\<close>, lines 65 to 83.\<close>

definition add_tuple :: "builders \<Rightarrow> tuple \<Rightarrow> builders" where
  "add_tuple b t =
     (case t of (f, a, m) \<Rightarrow>
       (let b1 = b\<lparr>measProject := obj_assign f (JStr (''$'' @ m @ ''_'' @ a)) (measProject b)\<rparr>
        in if a = ''count'' then
             b1\<lparr>measGroup :=
                   obj_assign ''count'' (JObj [(''$sum'', JStr ''$count'')]) (measGroup b1),
                 measProject := obj_assign f (JStr ''$count'') (measProject b1)\<rparr>
           else if a = ''avg'' then
             b1\<lparr>measGroup :=
                   obj_assign ''count'' (JObj [(''$sum'', JStr ''$count'')])
                     (obj_assign (m @ ''_sum'') (JObj [(''$sum'', JStr (''$'' @ m @ ''.sum''))])
                        (measGroup b1)),
                 measSet :=
                   obj_assign (m @ ''_avg'')
                     (JObj [(''$divide'', JArr [JStr (''$'' @ m @ ''_sum''), JStr ''$count''])])
                     (measSet b1)\<rparr>
           else
             b1\<lparr>measGroup :=
                   obj_assign (m @ ''_'' @ a) (JObj [(''$'' @ a, JStr (''$'' @ m @ ''.'' @ a))])
                     (measGroup b1)\<rparr>))"

definition createPipeline :: "jsval list \<Rightarrow> tuple list \<Rightarrow> error + jsval list" where
  "createPipeline ppl tuples =
     (let b = foldl add_tuple
                \<lparr>measGroup = [], measSet = [], measProject = [(''_id'', JNum 1)]\<rparr> tuples
      in case get_prop (at ppl 0) ''$group'' of
           Inl e \<Rightarrow> Inl e
         | Inr oldGroup \<Rightarrow>
           (case get_prop oldGroup ''_id'' of
              Inl e \<Rightarrow> Inl e
            | Inr oldId \<Rightarrow>
              (let group_stage = JObj [(''$group'', JObj (obj_spread [(''_id'', oldId)] (measGroup b)))];
                   set_stage = JObj [(''$set'', JObj (measSet b))];
                   project = JObj [(''$project'', JObj (measProject b))]
               in Inr ([group_stage] @ (if measSet b = [] then [] else [set_stage]) @ [project]
                       @ drop 1 ppl))))"

definition queryCube :: "jsval list \<Rightarrow> error + jsval list" where
  "queryCube pipeline =
     (case checkCompatibility pipeline of
        Inl e \<Rightarrow> Inl e
      | Inr tuples \<Rightarrow> createPipeline pipeline tuples)"

section \<open>createCube\<close>

text \<open>\<open>d.replace(".", "_")\<close>: a string pattern replaces its first occurrence.\<close>

fun replace_dot :: "string \<Rightarrow> string" where
  "replace_dot [] = []"
| "replace_dot (c # cs) = (if c = CHR ''.'' then CHR ''_'' # cs else c # replace_dot cs)"

text \<open>lodash \<open>zipObject(props, values)\<close>; a key without a value gets \<open>undefined\<close>.\<close>

definition zipObject :: "string list \<Rightarrow> jsval list \<Rightarrow> obj" where
  "zipObject props vals =
     foldl (\<lambda>acc (i, k). obj_set k (at vals i) acc) [] (zip [0..<length props] props)"

definition mapMeasure :: "string \<Rightarrow> obj" where
  "mapMeasure meas =
     obj_spread []
       [(meas @ ''_sum'', JObj [(''$sum'', JStr (''$'' @ meas))]),
        (meas @ ''_min'', JObj [(''$min'', JStr (''$'' @ meas))]),
        (meas @ ''_max'', JObj [(''$max'', JStr (''$'' @ meas))]),
        (meas @ ''_count'',
           JObj [(''$sum'',
             JObj [(''$cond'',
               JObj [(''if'', JStr (''$'' @ meas)), (''then'', JNum 1), (''else'', JNum 0)])])])]"

definition nestedMeasure :: "string \<Rightarrow> obj" where
  "nestedMeasure meas =
     obj_spread []
       [(meas,
           JObj [(''sum'', JStr (''$'' @ meas @ ''_sum'')),
                 (''min'', JStr (''$'' @ meas @ ''_min'')),
                 (''max'', JStr (''$'' @ meas @ ''_max'')),
                 (''count'', JStr (''$'' @ meas @ ''_count''))])]"

definition createCube :: "string list \<Rightarrow> string list \<Rightarrow> jsval \<Rightarrow> jsval list" where
  "createCube dimensions measures' outCollection =
     (let dashedDimensions = map replace_dot dimensions;
          dollaredDimensions = map (\<lambda>d. JStr (''$'' @ d)) dimensions;
          mappedMeasures =
            foldl (\<lambda>acc val. obj_spread (obj_spread [] acc) (mapMeasure val)) [] measures';
          nestedMeasures =
            foldl (\<lambda>acc val. obj_spread (obj_spread [] acc) (nestedMeasure val)) [] measures';
          idDimensions = map (\<lambda>d. JStr (''$_id.'' @ d)) dashedDimensions;
          unwrappedDimensions = zipObject dimensions idDimensions
      in [JObj [(''$group'',
                  JObj (obj_spread
                          [(''_id'', JObj (zipObject dashedDimensions dollaredDimensions)),
                           (''count'', JObj [(''$sum'', JNum 1)])]
                          mappedMeasures))],
          JObj [(''$project'',
                  JObj (obj_spread
                          (obj_spread [(''_id'', JNum 0), (''count'', JNum 1)] nestedMeasures)
                          unwrappedDimensions))],
          JObj [(''$out'', outCollection)]])"

section \<open>checkCompatibility on a store of objects\<close>

text \<open>
  The values above are trees: they cannot say whether two variables hold the same
  object.  For that, objects and arrays live in a store of cells, a value refers to a
  cell by its address, and \<open>delete\<close> changes a cell in place.  A new cell is appended to
  the store.
\<close>

type_synonym addr = nat

datatype hval = HUndefined | HNull | HBool bool | HNum int | HStr string | HRef addr

datatype cell = CObj "(string \<times> hval) list" | CArr "hval list"

type_synonym store = "cell list"

text \<open>
  A walk through the cells keeps the addresses it is inside of in a list \<open>st\<close>; an
  address of the store that is not in the list leaves the list short of the whole store.
  This is what makes the walk below end.
\<close>

lemma unvisited_card:
  assumes "a \<notin> set st" and "a < n"
  shows "card (set st \<inter> {..<n}) < n"
proof -
  have "set st \<inter> {..<n} \<subset> {..<n}"
    using assms by auto
  then have "card (set st \<inter> {..<n}) < card {..<n}"
    by (rule psubset_card_mono [rotated]) simp
  then show ?thesis by simp
qed

text \<open>
  The value that a store value stands for, read by walking the cells.  \<open>st\<close> holds the
  addresses of the objects the walk is inside of; meeting one of them again is a cycle,
  on which \<open>JSON.stringify\<close> throws a TypeError.  (An address outside the store does
  not occur in a running program; the walk fails on it as well.)  \<open>JSON.stringify\<close> is
  this walk followed by \<open>json_clone\<close>, which says what the text keeps.
\<close>

function snapshot :: "store \<Rightarrow> addr list \<Rightarrow> hval \<Rightarrow> error + jsval"
  and snapshot_props :: "store \<Rightarrow> addr list \<Rightarrow> (string \<times> hval) list \<Rightarrow> error + obj"
  and snapshot_elems :: "store \<Rightarrow> addr list \<Rightarrow> hval list \<Rightarrow> error + jsval list" where
  "snapshot h st HUndefined = Inr JUndefined"
| "snapshot h st HNull = Inr JNull"
| "snapshot h st (HBool b) = Inr (JBool b)"
| "snapshot h st (HNum n) = Inr (JNum n)"
| "snapshot h st (HStr s) = Inr (JStr s)"
| "snapshot h st (HRef a) =
     (if a \<in> set st \<or> length h \<le> a then Inl TypeError
      else (case h ! a of
              CObj kvs \<Rightarrow>
                (case snapshot_props h (a # st) kvs of
                   Inl e \<Rightarrow> Inl e
                 | Inr kvs' \<Rightarrow> Inr (JObj kvs'))
            | CArr xs \<Rightarrow>
                (case snapshot_elems h (a # st) xs of
                   Inl e \<Rightarrow> Inl e
                 | Inr xs' \<Rightarrow> Inr (JArr xs'))))"
| "snapshot_props h st [] = Inr []"
| "snapshot_props h st (kv # kvs) =
     (case snapshot h st (snd kv) of
        Inl e \<Rightarrow> Inl e
      | Inr v \<Rightarrow>
        (case snapshot_props h st kvs of
           Inl e \<Rightarrow> Inl e
         | Inr kvs' \<Rightarrow> Inr ((fst kv, v) # kvs')))"
| "snapshot_elems h st [] = Inr []"
| "snapshot_elems h st (x # xs) =
     (case snapshot h st x of
        Inl e \<Rightarrow> Inl e
      | Inr v \<Rightarrow>
        (case snapshot_elems h st xs of
           Inl e \<Rightarrow> Inl e
         | Inr vs \<Rightarrow> Inr (v # vs)))"
  by pat_completeness auto

termination
  by (relation "inv_image (measure (\<lambda>(h, st). length h - card (set st \<inter> {..<length h}))
                  <*lex*> measure (\<lambda>n. n))
        (\<lambda>x. case x of
               Inl (h, st, v) \<Rightarrow> ((h, st), 0)
             | Inr (Inl (h, st, kvs)) \<Rightarrow> ((h, st), Suc (length kvs))
             | Inr (Inr (h, st, xs)) \<Rightarrow> ((h, st), Suc (length xs)))")
    (auto simp: not_le dest: unvisited_card)


text \<open>\<open>JSON.parse\<close>: every object and array of the text is a new cell.\<close>

fun parse :: "jsval \<Rightarrow> store \<Rightarrow> store \<times> hval"
  and parse_props :: "obj \<Rightarrow> store \<Rightarrow> store \<times> (string \<times> hval) list"
  and parse_elems :: "jsval list \<Rightarrow> store \<Rightarrow> store \<times> hval list" where
  "parse JUndefined h = (h, HUndefined)"
| "parse JNull h = (h, HNull)"
| "parse (JBool b) h = (h, HBool b)"
| "parse (JNum n) h = (h, HNum n)"
| "parse (JStr s) h = (h, HStr s)"
| "parse (JObj kvs) h =
     (case parse_props kvs h of (h1, kvs') \<Rightarrow> (h1 @ [CObj kvs'], HRef (length h1)))"
| "parse (JArr xs) h =
     (case parse_elems xs h of (h1, xs') \<Rightarrow> (h1 @ [CArr xs'], HRef (length h1)))"
| "parse_props [] h = (h, [])"
| "parse_props (kv # kvs) h =
     (case parse (snd kv) h of (h1, v) \<Rightarrow>
        (case parse_props kvs h1 of (h2, kvs') \<Rightarrow> (h2, (fst kv, v) # kvs')))"
| "parse_elems [] h = (h, [])"
| "parse_elems (x # xs) h =
     (case parse x h of (h1, v) \<Rightarrow>
        (case parse_elems xs h1 of (h2, vs) \<Rightarrow> (h2, v # vs)))"

text \<open>\<open>v[0]\<close>, \<open>Object.keys(v)\<close>, \<open>v.name\<close> and \<open>delete v.name\<close> on the store.\<close>

definition store_first :: "store \<Rightarrow> hval \<Rightarrow> error + hval" where
  "store_first h v =
     (case v of
        HUndefined \<Rightarrow> Inl TypeError
      | HNull \<Rightarrow> Inl TypeError
      | HStr s \<Rightarrow> Inr (case s of [] \<Rightarrow> HUndefined | c # _ \<Rightarrow> HStr [c])
      | HRef a \<Rightarrow>
          if length h \<le> a then Inl TypeError
          else (case h ! a of
                  CArr xs \<Rightarrow> Inr (case xs of [] \<Rightarrow> HUndefined | x # _ \<Rightarrow> x)
                | CObj kvs \<Rightarrow>
                    Inr (case map_of kvs ''0'' of None \<Rightarrow> HUndefined | Some x \<Rightarrow> x))
      | _ \<Rightarrow> Inr HUndefined)"

definition store_keys :: "store \<Rightarrow> hval \<Rightarrow> error + string list" where
  "store_keys h v =
     (case v of
        HUndefined \<Rightarrow> Inl TypeError
      | HNull \<Rightarrow> Inl TypeError
      | HStr s \<Rightarrow> Inr (index_keys (length s))
      | HRef a \<Rightarrow>
          if length h \<le> a then Inl TypeError
          else (case h ! a of
                  CArr xs \<Rightarrow> Inr (index_keys (length xs))
                | CObj kvs \<Rightarrow> Inr (map fst kvs))
      | _ \<Rightarrow> Inr [])"

definition store_prop :: "store \<Rightarrow> hval \<Rightarrow> string \<Rightarrow> error + hval" where
  "store_prop h v name =
     (case v of
        HUndefined \<Rightarrow> Inl TypeError
      | HNull \<Rightarrow> Inl TypeError
      | HRef a \<Rightarrow>
          if length h \<le> a then Inl TypeError
          else (case h ! a of
                  CArr xs \<Rightarrow> Inr HUndefined
                | CObj kvs \<Rightarrow>
                    Inr (case map_of kvs name of None \<Rightarrow> HUndefined | Some x \<Rightarrow> x))
      | _ \<Rightarrow> Inr HUndefined)"

definition store_delete :: "store \<Rightarrow> hval \<Rightarrow> string \<Rightarrow> error + store" where
  "store_delete h v name =
     (case v of
        HUndefined \<Rightarrow> Inl TypeError
      | HNull \<Rightarrow> Inl TypeError
      | HRef a \<Rightarrow>
          if length h \<le> a then Inl TypeError
          else (case h ! a of
                  CArr xs \<Rightarrow> Inr h
                | CObj kvs \<Rightarrow> Inr (h[a := CObj (obj_delete name kvs)]))
      | _ \<Rightarrow> Inr h)"

text \<open>
  \<open>checkCompatibility\<close> with the pipeline in the store: line 17 reads the caller's
  cells, line 22 reads them all and builds the copy in new cells, line 26 deletes \<open>_id\<close>
  in a cell of the copy, and lines 28 to 51 read the copy.  The store is returned with
  the result, also when the call throws.
\<close>

definition checkCompatibility_store :: "store \<Rightarrow> hval \<Rightarrow> store \<times> (error + tuple list)" where
  "checkCompatibility_store h ppl =
     (case store_first h ppl of
        Inl e \<Rightarrow> (h, Inl e)
      | Inr stage \<Rightarrow>
        (case store_keys h stage of
           Inl e \<Rightarrow> (h, Inl e)
         | Inr ks \<Rightarrow>
           if first ks \<noteq> Some ''$group'' then (h, Inl (Error not_group_msg))
           else
             (case snapshot h [] ppl of
                Inl e \<Rightarrow> (h, Inl e)
              | Inr text \<Rightarrow>
                (case parse (json_clone text) h of (h1, ppl') \<Rightarrow>
                  (case store_first h1 ppl' of
                     Inl e \<Rightarrow> (h1, Inl e)
                   | Inr stage' \<Rightarrow>
                     (case store_prop h1 stage' ''$group'' of
                        Inl e \<Rightarrow> (h1, Inl e)
                      | Inr group0 \<Rightarrow>
                        (case store_delete h1 group0 ''_id'' of
                           Inl e \<Rightarrow> (h1, Inl e)
                         | Inr h2 \<Rightarrow>
                           (h2, case snapshot h2 [] group0 of
                                  Inl e \<Rightarrow> Inl e
                                | Inr grp \<Rightarrow> scan_group grp))))))))"

section \<open>Notions used to state the properties\<close>



text \<open>An accumulator cut down to its first key and value.\<close>

fun first_entry :: "jsval \<Rightarrow> jsval" where
  "first_entry (JObj (kv # kvs)) = JObj [kv]"
| "first_entry v = v"

definition first_entries :: "obj \<Rightarrow> obj" where
  "first_entries body = map (\<lambda>(f, acc). (f, first_entry acc)) body"

text \<open>The operator key of an accumulator: its first key, if it has one.\<close>

definition operator_key :: "jsval \<Rightarrow> string option" where
  "operator_key acc = (case object_keys acc of Inl e \<Rightarrow> None | Inr ks \<Rightarrow> first ks)"

text \<open>The operands that the tuple extraction accepts: strings, and the count patterns.\<close>

fun is_string :: "jsval \<Rightarrow> bool" where
  "is_string (JStr s) = True"
| "is_string v = False"

definition operand_accepted :: "jsval \<Rightarrow> bool" where
  "operand_accepted acc =
     (let meas = at (values_of acc) 0 in isObject meas \<or> meas = JNum 1 \<or> is_string meas)"

text \<open>
  The tuple of a field whose operand is accepted: a count for an object, an array or
  \<open>1\<close>; for a string, the operator key and the string, each without its first character.
\<close>

definition expected_tuple :: "string \<times> jsval \<Rightarrow> tuple" where
  "expected_tuple fv =
     (case fv of (f, acc) \<Rightarrow>
       (case at (values_of acc) 0 of
          JStr s \<Rightarrow> (f, (case operator_key acc of None \<Rightarrow> [] | Some k \<Rightarrow> drop 1 k), drop 1 s)
        | _ \<Rightarrow> (f, ''count'', ''count'')))"



text \<open>A store value, or a cell, that refers to no address below \<open>n\<close>.\<close>

fun fresh_val :: "nat \<Rightarrow> hval \<Rightarrow> bool" where
  "fresh_val n (HRef a) = (n \<le> a)"
| "fresh_val n v = True"

fun fresh_cell :: "nat \<Rightarrow> cell \<Rightarrow> bool" where
  "fresh_cell n (CObj kvs) = list_all (\<lambda>kv. fresh_val n (snd kv)) kvs"
| "fresh_cell n (CArr xs) = list_all (fresh_val n) xs"


section \<open>Evaluation\<close>

lemmas key_simps = is_array_index_def is_digit_def nat_of_digits_def
lemmas obj_simps = obj_set_def obj_assign_def obj_spread_def obj_get_def obj_delete_def
lemmas check_simps = checkCompatibility_def scan_group_def at_def first_def includes_op_def
  supported_ops_def make_tuple_def index_keys_def
lemmas pipeline_simps = createPipeline_def queryCube_def add_tuple_def
lemmas cube_simps = createCube_def zipObject_def mapMeasure_def nestedMeasure_def

section \<open>The rewritten average\<close>

text \<open>
  Claim C3: the pipeline that groups by \<open>Model Year\<close> with
  \<open>avg_weight = avg of Unladen Weight\<close>, sorts on \<open>avg_weight\<close> descending and keeps 3
  is to be rewritten into a grouping stage computing \<open>Unladen Weight_sum\<close> and
  \<open>Unladen Weight_count\<close> from the cube's nested per-measure fields, a \<open>$set\<close> stage
  computing \<open>Unladen Weight_avg\<close> by a safe divide, the projection of \<open>avg_weight\<close>, and
  the sort and limit stages unchanged.  That is also the output the README prints for
  this pipeline.  The code returns something else: the grouping stage sums the top-level
  \<open>count\<close> of the cube rows into \<open>count\<close> (there is no \<open>Unladen Weight_count\<close>, and the
  nested \<open>Unladen Weight.count\<close> is not read), and the \<open>$set\<close> stage is a plain
  \<open>$divide\<close> by \<open>$count\<close> with no test for zero.  Projection, sort and limit are as
  claimed.
\<close>

theorem queryCube_top3_average:
  "queryCube
     [JObj [(''$group'', JObj [(''_id'', JStr ''$Model Year''),
                               (''avg_weight'', JObj [(''$avg'', JStr ''$Unladen Weight'')])])],
      JObj [(''$sort'', JObj [(''avg_weight'', JNum (- 1))])],
      JObj [(''$limit'', JNum 3)]] =
   Inr [JObj [(''$group'',
                JObj [(''_id'', JStr ''$Model Year''),
                      (''Unladen Weight_sum'', JObj [(''$sum'', JStr ''$Unladen Weight.sum'')]),
                      (''count'', JObj [(''$sum'', JStr ''$count'')])])],
        JObj [(''$set'',
                JObj [(''Unladen Weight_avg'',
                        JObj [(''$divide'',
                                JArr [JStr ''$Unladen Weight_sum'', JStr ''$count''])])])],
        JObj [(''$project'',
                JObj [(''_id'', JNum 1), (''avg_weight'', JStr ''$Unladen Weight_avg'')])],
        JObj [(''$sort'', JObj [(''avg_weight'', JNum (- 1))])],
        JObj [(''$limit'', JNum 3)]]"
  by (simp add: key_simps obj_simps check_simps pipeline_simps)

text \<open>
  Claim C2: for every \<open>avg\<close> tuple the deferred average is to be a safe divide that
  yields \<open>null\<close> when the count is zero.  The code (line 77) registers
  \<open>{$divide: [<m>_sum, $count]}\<close>: the division is not guarded by any test of its
  denominator, and the denominator is the summed top-level \<open>count\<close>, not a count of the
  measure.  Shown here on the average of \<open>Weight\<close> per \<open>State\<close>.
\<close>

theorem queryCube_average_plain_divide:
  "queryCube
     [JObj [(''$group'', JObj [(''_id'', JStr ''$State''),
                               (''avg_w'', JObj [(''$avg'', JStr ''$Weight'')])])]] =
   Inr [JObj [(''$group'',
                JObj [(''_id'', JStr ''$State''),
                      (''Weight_sum'', JObj [(''$sum'', JStr ''$Weight.sum'')]),
                      (''count'', JObj [(''$sum'', JStr ''$count'')])])],
        JObj [(''$set'',
                JObj [(''Weight_avg'',
                        JObj [(''$divide'', JArr [JStr ''$Weight_sum'', JStr ''$count''])])])],
        JObj [(''$project'', JObj [(''_id'', JNum 1), (''avg_w'', JStr ''$Weight_avg'')])]]"
  by (simp add: key_simps obj_simps check_simps pipeline_simps)

subsection \<open>Count patterns\<close>

text \<open>
  On claim C1, the equality of the results of the original pipeline on the collection
  and of the rewritten pipeline on the cube: the code builds pipelines and never
  executes one, so what a stage computes is not part of it, and the claim has no
  statement here.  One fact about the rewrite bears on it.  An operand that is an object
  or the number \<open>1\<close> makes the accumulator a count whatever its operator is (lines 44 to
  47), so the pipelines that take the sum and the maximum of \<open>1\<close> are both accepted and
  are rewritten to the same pipeline.
\<close>

lemma queryCube_sum_max_of_one:
  "queryCube [JObj [(''$group'', JObj [(''_id'', JNull), (''n'', JObj [(''$sum'', JNum 1)])])]]
   = Inr [JObj [(''$group'', JObj [(''_id'', JNull), (''count'', JObj [(''$sum'', JStr ''$count'')])])],
          JObj [(''$project'', JObj [(''_id'', JNum 1), (''n'', JStr ''$count'')])]]
   \<and> queryCube [JObj [(''$group'', JObj [(''_id'', JNull), (''n'', JObj [(''$max'', JNum 1)])])]]
   = Inr [JObj [(''$group'', JObj [(''_id'', JNull), (''count'', JObj [(''$sum'', JStr ''$count'')])])],
          JObj [(''$project'', JObj [(''_id'', JNum 1), (''n'', JStr ''$count'')])]]"
  by (simp add: key_simps obj_simps check_simps pipeline_simps)

section \<open>The grouping keys of the cube\<close>

text \<open>
  Claim C4: the grouping-key name of a dimension is the dimension name with its dots
  replaced by underscores (the comment on line 130 says the same).  The code calls
  \<open>replace\<close> with a string pattern, which replaces the first dot only: the dimension
  \<open>a.b.c\<close> is grouped under the key \<open>a_b.c\<close> and read back as \<open>$_id.a_b.c\<close>.
\<close>

theorem createCube_dotted_dimension:
  "createCube [''a.b.c''] [''m''] (JStr ''cube'') =
     [JObj [(''$group'',
              JObj [(''_id'', JObj [(''a_b.c'', JStr ''$a.b.c'')]),
                    (''count'', JObj [(''$sum'', JNum 1)]),
                    (''m_sum'', JObj [(''$sum'', JStr ''$m'')]),
                    (''m_min'', JObj [(''$min'', JStr ''$m'')]),
                    (''m_max'', JObj [(''$max'', JStr ''$m'')]),
                    (''m_count'',
                       JObj [(''$sum'',
                         JObj [(''$cond'',
                           JObj [(''if'', JStr ''$m''), (''then'', JNum 1),
                                 (''else'', JNum 0)])])])])],
      JObj [(''$project'',
              JObj [(''_id'', JNum 0), (''count'', JNum 1),
                    (''m'', JObj [(''sum'', JStr ''$m_sum''), (''min'', JStr ''$m_min''),
                                  (''max'', JStr ''$m_max''), (''count'', JStr ''$m_count'')]),
                    (''a.b.c'', JStr ''$_id.a_b.c'')])],
      JObj [(''$out'', JStr ''cube'')]]"
  by (simp add: key_simps obj_simps cube_simps at_def)

section \<open>checkCompatibility: the errors\<close>

text \<open>
  Claim C7: a pipeline whose first stage is absent or is no grouping stage is rejected
  with the error that says so.  For the empty pipeline the code does not reach its own
  check: \<open>Object.keys(ppl[0])\<close> is \<open>Object.keys(undefined)\<close>, which throws a TypeError.
\<close>

theorem checkCompatibility_empty_pipeline:
  "checkCompatibility [] = Inl TypeError"
  by (simp add: check_simps)

subsection \<open>The grouping stage that is scanned\<close>

text \<open>
  The copy made on line 22 holds no \<open>undefined\<close>.  When the first stage has \<open>$group\<close>
  for first key and an object for body, lines 25 to 51 scan the copy of that body
  without its \<open>_id\<close>.
\<close>

lemma json_clone_undefined: "json_clone v = JUndefined \<longleftrightarrow> v = JUndefined"
  by (cases v) simp_all

lemma json_clone_props_defined: "(k, JUndefined) \<notin> set (json_clone_props kvs)"
proof (induction kvs)
  case Nil
  show ?case by simp
next
  case (Cons kv kvs)
  obtain k' v where kv: "kv = (k', v)" by (cases kv)
  have "json_clone v = JUndefined \<longleftrightarrow> v = JUndefined"
    by (rule json_clone_undefined)
  with Cons kv show ?case by auto
qed

lemma json_clone_JObj:
  assumes "json_clone g = JObj body"
  obtains kvs where "g = JObj kvs" and "body = json_clone_props kvs"
  using assms by (cases g) simp_all

lemma checkCompatibility_group:
  assumes "json_clone g = JObj body"
  shows "checkCompatibility (JObj ((''$group'', g) # others) # rest) =
           scan_group (JObj (obj_delete ''_id'' body))"
proof -
  from assms have "g \<noteq> JUndefined" by auto
  with assms show ?thesis
    by (simp add: checkCompatibility_def at_def first_def obj_get_def)
qed

subsection \<open>The errors of the parts\<close>

lemma object_keys_error: "object_keys v = Inl e \<Longrightarrow> e = TypeError"
  by (cases v) simp_all

lemma object_keys_defined:
  "v \<noteq> JUndefined \<Longrightarrow> v \<noteq> JNull \<Longrightarrow> \<exists>ks. object_keys v = Inr ks"
  by (cases v) simp_all

lemma slice1_error: "slice1 v = Inl e \<Longrightarrow> e = TypeError"
  by (cases v) simp_all

lemma make_tuple_error: "make_tuple fv = Inl e \<Longrightarrow> e = TypeError"
  by (auto simp: make_tuple_def Let_def dest: object_keys_error slice1_error
      split: prod.splits sum.splits option.splits if_splits)

lemma map_tuples_error: "map_tuples fvs = Inl e \<Longrightarrow> e = TypeError"
  by (induction fvs) (auto dest: make_tuple_error split: sum.splits)

lemma every_supported_error: "every_supported vals = Inl e \<Longrightarrow> e = TypeError"
  by (induction vals) (auto dest: object_keys_error split: sum.splits if_splits)

lemma scan_group_error:
  "scan_group grp = Inl e \<Longrightarrow> e = TypeError \<or> e = Error unsupported_msg"
  by (auto simp: scan_group_def dest: every_supported_error map_tuples_error
      split: sum.splits if_splits)

lemma get_prop_error: "get_prop v name = Inl e \<Longrightarrow> e = TypeError"
  by (cases v) simp_all

lemma delete_prop_error: "delete_prop v name = Inl e \<Longrightarrow> e = TypeError"
  by (cases v) simp_all

subsection \<open>The first stage\<close>

text \<open>
  What holds of claim C7: when the first stage is there and is neither \<open>null\<close> nor
  \<open>undefined\<close>, so that \<open>Object.keys\<close> returns, \<open>checkCompatibility\<close> fails with the
  error "must start with $group stage" exactly when the first key of that stage is not
  \<open>$group\<close>.
\<close>

theorem not_group_error_iff:
  assumes "object_keys stage = Inr ks"
  shows "checkCompatibility (stage # rest) = Inl (Error not_group_msg)
         \<longleftrightarrow> first ks \<noteq> Some ''$group''"
proof (cases "first ks = Some ''$group''")
  case False
  with assms show ?thesis by (simp add: checkCompatibility_def at_def)
next
  case True
  have msg: "not_group_msg \<noteq> unsupported_msg"
    by (simp add: not_group_msg_def unsupported_msg_def)
  have "checkCompatibility (stage # rest) \<noteq> Inl (Error not_group_msg)"
  proof
    assume "checkCompatibility (stage # rest) = Inl (Error not_group_msg)"
    with assms True have "Error not_group_msg = TypeError
        \<or> Error not_group_msg = Error unsupported_msg"
      by (auto simp: checkCompatibility_def at_def Let_def
          dest: get_prop_error delete_prop_error scan_group_error split: sum.splits)
    with msg show False by simp
  qed
  with True show ?thesis by simp
qed

text \<open>The theorem at a pipeline that starts with a \<open>$match\<close> stage.\<close>

theorem not_group_error_iff_witness:
  "object_keys (JObj [(''$match'', JObj [(''State'', JStr ''NY'')])]) = Inr [''$match'']
   \<and> first [''$match''] \<noteq> Some ''$group''
   \<and> checkCompatibility [JObj [(''$match'', JObj [(''State'', JStr ''NY'')])]]
       = Inl (Error not_group_msg)"
  using not_group_error_iff [of "JObj [(''$match'', JObj [(''State'', JStr ''NY'')])]"
      "[''$match'']" "[]"]
  by (simp add: first_def)

subsection \<open>Unsupported operators\<close>

lemma every_supported_defined:
  assumes "JUndefined \<notin> set vals" and "JNull \<notin> set vals"
  shows "every_supported vals = Inr (list_all (\<lambda>acc. includes_op (operator_key acc)) vals)"
  using assms
proof (induction vals)
  case Nil
  show ?case by simp
next
  case (Cons v vals)
  then obtain ks where "object_keys v = Inr ks"
    using object_keys_defined [of v] by auto
  with Cons show ?case by (simp add: operator_key_def)
qed

lemma obj_delete_subset: "set (obj_delete k kvs) \<subseteq> set kvs"
  by (auto simp: obj_delete_def)

text \<open>
  Claim C8 amended.  Lines 29 to 32 look at the copy that line 22 makes, and the copy
  of an object leaves out every property whose value is \<open>undefined\<close>.  For a pipeline
  whose first stage is a grouping stage with an object for body, \<open>checkCompatibility\<close>
  fails with the unsupported-operator error exactly when, \<open>_id\<close> removed, some field
  of the copied body has an accumulator whose first key in the copy is not one of
  \<open>$sum\<close>, \<open>$min\<close>, \<open>$max\<close>, \<open>$avg\<close> (an accumulator with no key counts as such).  Here
  \<open>g\<close> is the body as the caller wrote it and \<open>body\<close> what its copy holds.  The case of
  an accumulator that is \<open>null\<close> is left out: see \<open>null_before_unsupported\<close> below.
\<close>

theorem unsupported_operator_iff:
  assumes "json_clone g = JObj body"
    and "JNull \<notin> set (map snd (obj_delete ''_id'' body))"
  shows "checkCompatibility (JObj ((''$group'', g) # others) # rest) = Inl (Error unsupported_msg)
         \<longleftrightarrow> list_ex (\<lambda>acc. \<not> includes_op (operator_key acc)) (map snd (obj_delete ''_id'' body))"
proof -
  let ?vals = "map snd (obj_delete ''_id'' body)"
  from assms(1) obtain kvs where body: "body = json_clone_props kvs"
    by (rule json_clone_JObj)
  have "JUndefined \<notin> set ?vals"
    using json_clone_props_defined obj_delete_subset [of "''_id''" body] body by fastforce
  with assms(2) have every:
    "every_supported ?vals = Inr (list_all (\<lambda>acc. includes_op (operator_key acc)) ?vals)"
    by (simp add: every_supported_defined)
  have ex: "list_ex (\<lambda>acc. \<not> includes_op (operator_key acc)) ?vals
            \<longleftrightarrow> \<not> list_all (\<lambda>acc. includes_op (operator_key acc)) ?vals"
    by (simp add: list_ex_iff list_all_iff)
  have "scan_group (JObj (obj_delete ''_id'' body)) = Inl (Error unsupported_msg)
        \<longleftrightarrow> \<not> list_all (\<lambda>acc. includes_op (operator_key acc)) ?vals"
    using every by (auto simp: scan_group_def dest: map_tuples_error)
  with ex show ?thesis
    using assms(1) by (simp add: checkCompatibility_group)
qed

text \<open>
  The theorem at a grouping stage with a \<open>$sum\<close> and a \<open>$first\<close> accumulator: the
  call fails with the unsupported-operator error.
\<close>

theorem unsupported_operator_iff_witness:
  "json_clone (JObj [(''_id'', JStr ''$State''), (''a'', JObj [(''$sum'', JStr ''$x'')]),
                     (''b'', JObj [(''$first'', JStr ''$y'')])])
     = JObj [(''_id'', JStr ''$State''), (''a'', JObj [(''$sum'', JStr ''$x'')]),
             (''b'', JObj [(''$first'', JStr ''$y'')])]
   \<and> JNull \<notin> set (map snd (obj_delete ''_id''
        [(''_id'', JStr ''$State''), (''a'', JObj [(''$sum'', JStr ''$x'')]),
         (''b'', JObj [(''$first'', JStr ''$y'')])]))
   \<and> list_ex (\<lambda>acc. \<not> includes_op (operator_key acc)) (map snd (obj_delete ''_id''
        [(''_id'', JStr ''$State''), (''a'', JObj [(''$sum'', JStr ''$x'')]),
         (''b'', JObj [(''$first'', JStr ''$y'')])]))
   \<and> checkCompatibility
        [JObj [(''$group'',
                 JObj [(''_id'', JStr ''$State''), (''a'', JObj [(''$sum'', JStr ''$x'')]),
                       (''b'', JObj [(''$first'', JStr ''$y'')])])]]
       = Inl (Error unsupported_msg)"
  using unsupported_operator_iff
    [of "JObj [(''_id'', JStr ''$State''), (''a'', JObj [(''$sum'', JStr ''$x'')]),
               (''b'', JObj [(''$first'', JStr ''$y'')])]"
        "[(''_id'', JStr ''$State''), (''a'', JObj [(''$sum'', JStr ''$x'')]),
          (''b'', JObj [(''$first'', JStr ''$y'')])]" "[]" "[]"]
  by (simp add: obj_delete_def operator_key_def includes_op_def supported_ops_def first_def)

text \<open>
  Claim C8 as stated fails on an accumulator whose first key has the value
  \<open>undefined\<close>: the operator key \<open>$foo\<close> of the field \<open>a\<close> is not one of the four, and
  the call returns the tuple of the second key, since the copy does not hold the first.
\<close>

theorem unsupported_first_key_dropped:
  "operator_key (JObj [(''$foo'', JUndefined), (''$sum'', JStr ''$x'')]) = Some ''$foo''
   \<and> \<not> includes_op (operator_key (JObj [(''$foo'', JUndefined), (''$sum'', JStr ''$x'')]))
   \<and> checkCompatibility
        [JObj [(''$group'',
                 JObj [(''_id'', JNull),
                       (''a'', JObj [(''$foo'', JUndefined), (''$sum'', JStr ''$x'')])])]]
       = Inr [(''a'', ''sum'', ''x'')]"
  by (simp add: operator_key_def obj_simps check_simps)

text \<open>
  An accumulator that is \<open>null\<close> stops the scan where it stands: \<open>Object.keys(null)\<close>
  throws a TypeError inside \<open>every\<close>.  Met before an unsupported operator it hides the
  error that the same fields give in the other order.
\<close>

lemma null_before_unsupported:
  "checkCompatibility
     [JObj [(''$group'',
              JObj [(''_id'', JNull), (''a'', JNull), (''b'', JObj [(''$foo'', JNum 1)])])]]
     = Inl TypeError
   \<and> checkCompatibility
     [JObj [(''$group'',
              JObj [(''_id'', JNull), (''b'', JObj [(''$foo'', JNum 1)]), (''a'', JNull)])]]
     = Inl (Error unsupported_msg)"
  by (simp add: obj_simps check_simps)

subsection \<open>Operands\<close>

lemma every_supported_True:
  assumes "every_supported vals = Inr True" and "val \<in> set vals"
  shows "\<exists>k ks. object_keys val = Inr (k # ks)"
  using assms
proof (induction vals)
  case Nil
  then show ?case by simp
next
  case (Cons v vals)
  then show ?case
    by (auto simp: first_def includes_op_def split: sum.splits if_splits list.splits)
qed

lemma make_tuple_expected:
  assumes "object_keys val = Inr (k # ks)"
  shows "make_tuple (f, val) =
         (if operand_accepted val then Inr (expected_tuple (f, val)) else Inl TypeError)"
proof (cases "at (values_of val) 0")
  case (JStr s)
  with assms show ?thesis
    by (simp add: make_tuple_def first_def operand_accepted_def expected_tuple_def
        operator_key_def)
qed (use assms in \<open>simp_all add: make_tuple_def first_def operand_accepted_def
      expected_tuple_def operator_key_def\<close>)

lemma map_tuples_expected:
  assumes "\<forall>val \<in> set (map snd fvs). \<exists>k ks. object_keys val = Inr (k # ks)"
  shows "map_tuples fvs =
         (if list_all operand_accepted (map snd fvs) then Inr (map expected_tuple fvs)
          else Inl TypeError)"
  using assms
proof (induction fvs)
  case Nil
  show ?case by simp
next
  case (Cons fv fvs)
  obtain f val where fv: "fv = (f, val)" by (cases fv)
  from Cons.prems fv obtain k ks where "object_keys val = Inr (k # ks)" by auto
  from make_tuple_expected [OF this, of f] Cons.IH Cons.prems fv show ?case
    by (auto split: if_splits sum.splits)
qed

text \<open>
  Claim C5 amended: there is no error for an invalid operand.  Take a grouping stage
  whose body is an object and, in the copy made on line 22 (which leaves out the
  properties whose value is \<open>undefined\<close>), the fields other than \<open>_id\<close>, each
  accumulator having a supported operator for first key.  When every operand (the
  value under that first key) is a string, an object, an array or the number \<open>1\<close>,
  \<open>checkCompatibility\<close> returns one tuple per field, in order: the field with \<open>count\<close>
  and \<open>count\<close> for an object, an array or \<open>1\<close>; for a string, the field, the operator
  key without its first character and the string without its first character, whether
  or not that character is \<open>$\<close>.  Otherwise (some operand is another number, a boolean
  or \<open>null\<close>) the call fails with the TypeError of calling \<open>slice\<close> on a value that has
  no such method.
\<close>

theorem operand_check:
  assumes "json_clone g = JObj body"
    and "every_supported (map snd (obj_delete ''_id'' body)) = Inr True"
  shows "checkCompatibility (JObj ((''$group'', g) # others) # rest) =
         (if list_all operand_accepted (map snd (obj_delete ''_id'' body))
          then Inr (map expected_tuple (obj_delete ''_id'' body))
          else Inl TypeError)"
proof -
  have "\<forall>val \<in> set (map snd (obj_delete ''_id'' body)). \<exists>k ks. object_keys val = Inr (k # ks)"
    using every_supported_True [OF assms(2)] by blast
  from map_tuples_expected [OF this] show ?thesis
    using assms by (simp add: checkCompatibility_group scan_group_def)
qed

text \<open>
  The theorem at a grouping stage with a string operand without \<open>$\<close>, one with it and
  the operand \<open>1\<close>, and at one whose operand is the number \<open>2\<close>.
\<close>

theorem operand_check_witness:
  "json_clone (JObj [(''_id'', JNull), (''total'', JObj [(''$sum'', JStr ''Weight'')]),
                     (''hi'', JObj [(''$max'', JStr ''$Price'')]),
                     (''n'', JObj [(''$sum'', JNum 1)])])
     = JObj [(''_id'', JNull), (''total'', JObj [(''$sum'', JStr ''Weight'')]),
             (''hi'', JObj [(''$max'', JStr ''$Price'')]), (''n'', JObj [(''$sum'', JNum 1)])]
   \<and> every_supported (map snd (obj_delete ''_id''
        [(''_id'', JNull), (''total'', JObj [(''$sum'', JStr ''Weight'')]),
         (''hi'', JObj [(''$max'', JStr ''$Price'')]), (''n'', JObj [(''$sum'', JNum 1)])]))
       = Inr True
   \<and> checkCompatibility
        [JObj [(''$group'',
                 JObj [(''_id'', JNull), (''total'', JObj [(''$sum'', JStr ''Weight'')]),
                       (''hi'', JObj [(''$max'', JStr ''$Price'')]),
                       (''n'', JObj [(''$sum'', JNum 1)])])]]
       = Inr [(''total'', ''sum'', ''eight''), (''hi'', ''max'', ''Price''),
              (''n'', ''count'', ''count'')]
   \<and> json_clone (JObj [(''_id'', JNull), (''n'', JObj [(''$sum'', JNum 2)])])
     = JObj [(''_id'', JNull), (''n'', JObj [(''$sum'', JNum 2)])]
   \<and> every_supported (map snd (obj_delete ''_id''
        [(''_id'', JNull), (''n'', JObj [(''$sum'', JNum 2)])])) = Inr True
   \<and> checkCompatibility
        [JObj [(''$group'', JObj [(''_id'', JNull), (''n'', JObj [(''$sum'', JNum 2)])])]]
       = Inl TypeError"
  using operand_check
    [of "JObj [(''_id'', JNull), (''total'', JObj [(''$sum'', JStr ''Weight'')]),
               (''hi'', JObj [(''$max'', JStr ''$Price'')]), (''n'', JObj [(''$sum'', JNum 1)])]"
        "[(''_id'', JNull), (''total'', JObj [(''$sum'', JStr ''Weight'')]),
          (''hi'', JObj [(''$max'', JStr ''$Price'')]), (''n'', JObj [(''$sum'', JNum 1)])]"
        "[]" "[]"]
    operand_check
    [of "JObj [(''_id'', JNull), (''n'', JObj [(''$sum'', JNum 2)])]"
        "[(''_id'', JNull), (''n'', JObj [(''$sum'', JNum 2)])]" "[]" "[]"]
  by (simp add: obj_delete_def operand_accepted_def expected_tuple_def operator_key_def
      at_def first_def includes_op_def supported_ops_def)

text \<open>
  Claim C5 as stated fails on an operand that is a string without the marker \<open>$\<close>: it
  is neither a field reference nor a count pattern, and the call returns a tuple, the
  measure being the string without its first character.
\<close>

theorem unmarked_operand_accepted:
  "checkCompatibility
     [JObj [(''$group'', JObj [(''_id'', JNull), (''total'', JObj [(''$sum'', JStr ''Weight'')])])]]
   = Inr [(''total'', ''sum'', ''eight'')]"
  by (simp add: obj_simps check_simps)

subsection \<open>Accumulators with several keys\<close>

lemma every_supported_first_entry:
  "every_supported (map first_entry vals) = every_supported vals"
proof (induction vals)
  case Nil
  show ?case by simp
next
  case (Cons v vals)
  show ?case
  proof (cases v rule: first_entry.cases)
    case (1 kv kvs)
    with Cons show ?thesis by (simp add: first_def)
  qed (use Cons in simp_all)
qed

lemma make_tuple_first_entry: "make_tuple (f, first_entry v) = make_tuple (f, v)"
  by (cases v rule: first_entry.cases) (simp_all add: make_tuple_def first_def at_def)

lemma map_tuples_first_entries: "map_tuples (first_entries body) = map_tuples body"
  by (induction body) (auto simp: first_entries_def make_tuple_first_entry split: sum.splits)

lemma obj_delete_first_entries:
  "obj_delete k (first_entries body) = first_entries (obj_delete k body)"
  by (induction body) (auto simp: first_entries_def obj_delete_def)

lemma values_first_entries: "map snd (first_entries body) = map first_entry (map snd body)"
  by (induction body) (auto simp: first_entries_def)

lemma scan_group_first_entries:
  "scan_group (JObj (first_entries body)) = scan_group (JObj body)"
  by (simp add: scan_group_def values_first_entries every_supported_first_entry
      map_tuples_first_entries del: map_map split: sum.splits)

text \<open>
  Claim C10 amended: an accumulator with more than one operator key is not rejected;
  the operator check and the tuple extraction look at one key and its value only, the
  first in the copy that line 22 makes, that is, the first key of the accumulator whose
  value is not \<open>undefined\<close>.  So two grouping stages whose copies have accumulators
  that agree on their first entries get the same answer from \<open>checkCompatibility\<close>, the
  same tuples or the same error, whatever else the accumulators carry.  Here \<open>g1\<close> and
  \<open>g2\<close> are the bodies as written and \<open>body1\<close> and \<open>body2\<close> what their copies hold.
\<close>

theorem accumulator_first_entry_only:
  assumes "json_clone g1 = JObj body1" and "json_clone g2 = JObj body2"
    and "first_entries body1 = first_entries body2"
  shows "checkCompatibility (JObj ((''$group'', g1) # others1) # rest1) =
         checkCompatibility (JObj ((''$group'', g2) # others2) # rest2)"
proof -
  have "scan_group (JObj (obj_delete ''_id'' body1)) =
        scan_group (JObj (first_entries (obj_delete ''_id'' body1)))"
    by (simp add: scan_group_first_entries)
  also have "\<dots> = scan_group (JObj (first_entries (obj_delete ''_id'' body2)))"
    using assms(3) by (simp flip: obj_delete_first_entries)
  also have "\<dots> = scan_group (JObj (obj_delete ''_id'' body2))"
    by (simp add: scan_group_first_entries)
  finally show ?thesis
    using assms(1,2) by (simp add: checkCompatibility_group)
qed

text \<open>
  The theorem at the accumulator \<open>{$sum: "$x", $foo: 2}\<close> against \<open>{$sum: "$x"}\<close>: both
  are accepted with the tuple \<open>(total, sum, x)\<close>.
\<close>

theorem accumulator_first_entry_only_witness:
  "json_clone (JObj [(''_id'', JNull),
                     (''total'', JObj [(''$sum'', JStr ''$x''), (''$foo'', JNum 2)])])
     = JObj [(''_id'', JNull), (''total'', JObj [(''$sum'', JStr ''$x''), (''$foo'', JNum 2)])]
   \<and> json_clone (JObj [(''_id'', JNull), (''total'', JObj [(''$sum'', JStr ''$x'')])])
     = JObj [(''_id'', JNull), (''total'', JObj [(''$sum'', JStr ''$x'')])]
   \<and> first_entries [(''_id'', JNull),
                      (''total'', JObj [(''$sum'', JStr ''$x''), (''$foo'', JNum 2)])]
     = first_entries [(''_id'', JNull), (''total'', JObj [(''$sum'', JStr ''$x'')])]
   \<and> checkCompatibility
        [JObj [(''$group'',
                 JObj [(''_id'', JNull),
                       (''total'', JObj [(''$sum'', JStr ''$x''), (''$foo'', JNum 2)])])]]
       = Inr [(''total'', ''sum'', ''x'')]
   \<and> checkCompatibility
        [JObj [(''$group'', JObj [(''_id'', JNull), (''total'', JObj [(''$sum'', JStr ''$x'')])])]]
       = Inr [(''total'', ''sum'', ''x'')]"
proof -
  have right: "checkCompatibility
        [JObj [(''$group'', JObj [(''_id'', JNull), (''total'', JObj [(''$sum'', JStr ''$x'')])])]]
       = Inr [(''total'', ''sum'', ''x'')]"
    by (simp add: obj_simps check_simps)
  from accumulator_first_entry_only
    [of "JObj [(''_id'', JNull), (''total'', JObj [(''$sum'', JStr ''$x''), (''$foo'', JNum 2)])]"
        "[(''_id'', JNull), (''total'', JObj [(''$sum'', JStr ''$x''), (''$foo'', JNum 2)])]"
        "JObj [(''_id'', JNull), (''total'', JObj [(''$sum'', JStr ''$x'')])]"
        "[(''_id'', JNull), (''total'', JObj [(''$sum'', JStr ''$x'')])]"
        "[]" "[]" "[]" "[]"]
    right
  show ?thesis by (simp add: first_entries_def)
qed

text \<open>
  Claim C10 as stated fails when the first key has the value \<open>undefined\<close>.  The two
  accumulators below have the same first entry, with the supported operator \<open>$sum\<close>
  for key; the first one is accepted with the operator and the measure of its second
  key, and the second one is rejected.
\<close>

theorem first_key_dropped_with_undefined:
  "first_entries [(''n'', JObj [(''$sum'', JUndefined), (''$avg'', JStr ''$x'')])]
     = first_entries [(''n'', JObj [(''$sum'', JUndefined)])]
   \<and> operator_key (JObj [(''$sum'', JUndefined), (''$avg'', JStr ''$x'')]) = Some ''$sum''
   \<and> checkCompatibility
        [JObj [(''$group'',
                 JObj [(''_id'', JNull),
                       (''n'', JObj [(''$sum'', JUndefined), (''$avg'', JStr ''$x'')])])]]
       = Inr [(''n'', ''avg'', ''x'')]
   \<and> checkCompatibility
        [JObj [(''$group'', JObj [(''_id'', JNull), (''n'', JObj [(''$sum'', JUndefined)])])]]
       = Inl (Error unsupported_msg)"
  by (simp add: first_entries_def operator_key_def obj_simps check_simps)

section \<open>createCube: the number of fields\<close>

subsection \<open>The keys of the objects that are built\<close>



















subsection \<open>The accumulator fields of the measures\<close>










subsection \<open>The stages of the cube pipeline\<close>













section \<open>checkCompatibility and the caller's pipeline\<close>

subsection \<open>The copy is made of new cells\<close>

text \<open>
  \<open>parse\<close> leaves the cells of the store as they are, and what it returns and what it
  puts into the new cells refers to new cells only.  So the grouping stage that line 25
  reaches through the copy is a new cell, and the \<open>delete\<close> of line 26 changes that one.
\<close>

lemma take_extend: "take (length h) h1 = h \<Longrightarrow> take (length h1) h2 = h1 \<Longrightarrow> take (length h) h2 = h"
  by (metis append_eq_conv_conj append_take_drop_id append.assoc)

lemma take_length_le: "take (length h) h1 = h \<Longrightarrow> length h \<le> length h1"
  by (drule arg_cong [where f = length]) simp

lemma parse_frame:
  "parse t h = (h1, v) \<Longrightarrow> n \<le> length h \<Longrightarrow> list_all (fresh_cell n) (drop n h) \<Longrightarrow>
     take (length h) h1 = h \<and> fresh_val n v \<and> list_all (fresh_cell n) (drop n h1)"
  "parse_props kvs h = (h1, kvs') \<Longrightarrow> n \<le> length h \<Longrightarrow> list_all (fresh_cell n) (drop n h) \<Longrightarrow>
     take (length h) h1 = h \<and> list_all (\<lambda>kv. fresh_val n (snd kv)) kvs'
       \<and> list_all (fresh_cell n) (drop n h1)"
  "parse_elems xs h = (h1, xs') \<Longrightarrow> n \<le> length h \<Longrightarrow> list_all (fresh_cell n) (drop n h) \<Longrightarrow>
     take (length h) h1 = h \<and> list_all (fresh_val n) xs' \<and> list_all (fresh_cell n) (drop n h1)"
proof (induction t h and kvs h and xs h arbitrary: h1 v and h1 kvs' and h1 xs'
    rule: parse_parse_props_parse_elems.induct)
  case (6 kvs h)
  obtain h0 kvs0 where p: "parse_props kvs h = (h0, kvs0)" by (cases "parse_props kvs h")
  from "6.IH" [OF p "6.prems"(2,3)]
  have ih: "take (length h) h0 = h" "list_all (\<lambda>kv. fresh_val n (snd kv)) kvs0"
    "list_all (fresh_cell n) (drop n h0)" by simp_all
  from ih(1) have le: "length h \<le> length h0" by (rule take_length_le)
  from "6.prems"(1) p have res: "h1 = h0 @ [CObj kvs0]" "v = HRef (length h0)" by simp_all
  show ?case
    using ih le "6.prems"(2) by (simp add: res)
next
  case (7 xs h)
  obtain h0 xs0 where p: "parse_elems xs h = (h0, xs0)" by (cases "parse_elems xs h")
  from "7.IH" [OF p "7.prems"(2,3)]
  have ih: "take (length h) h0 = h" "list_all (fresh_val n) xs0"
    "list_all (fresh_cell n) (drop n h0)" by simp_all
  from ih(1) have le: "length h \<le> length h0" by (rule take_length_le)
  from "7.prems"(1) p have res: "h1 = h0 @ [CArr xs0]" "v = HRef (length h0)" by simp_all
  show ?case
    using ih le "7.prems"(2) by (simp add: res)
next
  case (9 kv kvs h)
  obtain ha va where a: "parse (snd kv) h = (ha, va)" by (cases "parse (snd kv) h")
  obtain hb kvsb where b: "parse_props kvs ha = (hb, kvsb)" by (cases "parse_props kvs ha")
  from "9.IH"(1) [OF a "9.prems"(2,3)]
  have iha: "take (length h) ha = h" "fresh_val n va" "list_all (fresh_cell n) (drop n ha)"
    by simp_all
  from iha(1) have le: "length h \<le> length ha" by (rule take_length_le)
  with "9.prems"(2) have n: "n \<le> length ha" by simp
  from "9.IH"(2) [OF a [symmetric] b n iha(3)]
  have ihb: "take (length ha) hb = ha" "list_all (\<lambda>kv. fresh_val n (snd kv)) kvsb"
    "list_all (fresh_cell n) (drop n hb)" by simp_all
  from "9.prems"(1) a b have res: "h1 = hb" "kvs' = (fst kv, va) # kvsb" by simp_all
  show ?case
    using iha ihb take_extend [OF iha(1) ihb(1)] by (simp add: res)
next
  case (11 x xs h)
  obtain ha va where a: "parse x h = (ha, va)" by (cases "parse x h")
  obtain hb vsb where b: "parse_elems xs ha = (hb, vsb)" by (cases "parse_elems xs ha")
  from "11.IH"(1) [OF a "11.prems"(2,3)]
  have iha: "take (length h) ha = h" "fresh_val n va" "list_all (fresh_cell n) (drop n ha)"
    by simp_all
  from iha(1) have le: "length h \<le> length ha" by (rule take_length_le)
  with "11.prems"(2) have n: "n \<le> length ha" by simp
  from "11.IH"(2) [OF a [symmetric] b n iha(3)]
  have ihb: "take (length ha) hb = ha" "list_all (fresh_val n) vsb"
    "list_all (fresh_cell n) (drop n hb)" by simp_all
  from "11.prems"(1) a b have res: "h1 = hb" "xs' = va # vsb" by simp_all
  show ?case
    using iha ihb take_extend [OF iha(1) ihb(1)] by (simp add: res)
qed auto

lemma fresh_cell_at:
  assumes "list_all (fresh_cell n) (drop n h)" and "n \<le> a" and "a < length h"
  shows "fresh_cell n (h ! a)"
proof -
  have "h ! a = drop n h ! (a - n)" using assms(2,3) by simp
  moreover have "a - n < length (drop n h)" using assms(2,3) by simp
  ultimately show ?thesis using assms(1) by (simp add: list_all_length)
qed

lemma map_of_fresh:
  "list_all (\<lambda>kv. fresh_val n (snd kv)) kvs \<Longrightarrow> map_of kvs k = Some x \<Longrightarrow> fresh_val n x"
  by (induction kvs) (auto split: if_splits)

lemma store_first_fresh:
  assumes "store_first h v = Inr x" and "fresh_val n v" and "list_all (fresh_cell n) (drop n h)"
  shows "fresh_val n x"
proof (cases v)
  case (HRef a)
  with assms(1) have a: "a < length h" by (auto simp: store_first_def split: if_splits)
  from HRef assms(2) have "n \<le> a" by simp
  with assms(3) a have fresh: "fresh_cell n (h ! a)" by (simp add: fresh_cell_at)
  show ?thesis
  proof (cases "h ! a")
    case (CObj kvs)
    with assms(1) HRef a fresh show ?thesis
      by (auto simp: store_first_def dest: map_of_fresh split: option.splits)
  next
    case (CArr xs)
    with assms(1) HRef a fresh show ?thesis
      by (auto simp: store_first_def split: list.splits)
  qed
qed (use assms(1) in \<open>auto simp: store_first_def split: list.splits\<close>)

lemma store_prop_fresh:
  assumes "store_prop h v name = Inr x" and "fresh_val n v"
    and "list_all (fresh_cell n) (drop n h)"
  shows "fresh_val n x"
proof (cases v)
  case (HRef a)
  with assms(1) have a: "a < length h" by (auto simp: store_prop_def split: if_splits)
  from HRef assms(2) have "n \<le> a" by simp
  with assms(3) a have fresh: "fresh_cell n (h ! a)" by (simp add: fresh_cell_at)
  show ?thesis
  proof (cases "h ! a")
    case (CObj kvs)
    with assms(1) HRef a fresh show ?thesis
      by (auto simp: store_prop_def dest: map_of_fresh split: option.splits)
  next
    case (CArr xs)
    with assms(1) HRef a show ?thesis
      by (auto simp: store_prop_def)
  qed
qed (use assms(1) in \<open>auto simp: store_prop_def\<close>)

lemma store_delete_frame:
  assumes "store_delete h v name = Inr h'" and "fresh_val n v"
  shows "take n h' = take n h"
proof (cases v)
  case (HRef a)
  with assms(2) have "n \<le> a" by simp
  with assms(1) HRef show ?thesis
    by (auto simp: store_delete_def split: if_splits cell.splits)
qed (use assms(1) in \<open>auto simp: store_delete_def\<close>)

lemma checkCompatibility_store_extends:
  assumes "checkCompatibility_store h ppl = (h', r)"
  shows "take (length h) h' = h"
proof (cases "h' = h")
  case True
  then show ?thesis by simp
next
  case False
  with assms obtain json h1 ppl' where
    parse: "parse (json_clone json) h = (h1, ppl')"
    and rest: "h' = h1 \<or> (\<exists>stage' group0. store_first h1 ppl' = Inr stage'
                 \<and> store_prop h1 stage' ''$group'' = Inr group0
                 \<and> store_delete h1 group0 ''_id'' = Inr h')"
    by (auto simp: checkCompatibility_store_def split: sum.splits if_splits prod.splits)
  from parse_frame(1) [OF parse, of "length h"]
  have h1: "take (length h) h1 = h" "fresh_val (length h) ppl'"
    "list_all (fresh_cell (length h)) (drop (length h) h1)" by simp_all
  from rest show ?thesis
  proof
    assume "h' = h1"
    with h1(1) show ?thesis by simp
  next
    assume "\<exists>stage' group0. store_first h1 ppl' = Inr stage'
                 \<and> store_prop h1 stage' ''$group'' = Inr group0
                 \<and> store_delete h1 group0 ''_id'' = Inr h'"
    then obtain stage' group0 where
      stage: "store_first h1 ppl' = Inr stage'"
      and grp: "store_prop h1 stage' ''$group'' = Inr group0"
      and del: "store_delete h1 group0 ''_id'' = Inr h'"
      by blast
    from store_first_fresh [OF stage h1(2,3)] have "fresh_val (length h) stage'" .
    from store_prop_fresh [OF grp this h1(3)] have "fresh_val (length h) group0" .
    with del have "take (length h) h' = take (length h) h1"
      by (rule store_delete_frame)
    with h1(1) show ?thesis by simp
  qed
qed

subsection \<open>Reading a store that has grown\<close>

lemma nth_extend:
  assumes "take (length h) h' = h" and "a < length h"
  shows "h' ! a = h ! a" and "a < length h'"
proof -
  from assms(1) have "length h \<le> length h'" by (rule take_length_le)
  with assms(2) show "a < length h'" by simp
  from assms(2) have "take (length h) h' ! a = h' ! a" by simp
  with assms(1) show "h' ! a = h ! a" by simp
qed

lemma snapshot_extend:
  assumes ext: "take (length h) h' = h"
  shows "snapshot h st v = Inr t \<Longrightarrow> snapshot h' st v = Inr t"
    and "snapshot_props h st kvs = Inr kvs' \<Longrightarrow> snapshot_props h' st kvs = Inr kvs'"
    and "snapshot_elems h st xs = Inr xs' \<Longrightarrow> snapshot_elems h' st xs = Inr xs'"
  using ext
proof (induction h st v and h st kvs and h st xs arbitrary: t and kvs' and xs'
    rule: snapshot_snapshot_props_snapshot_elems.induct)
  case (6 h st a)
  from "6.prems"(1) have a: "a \<notin> set st" "a < length h"
    by (auto split: if_splits)
  note nth = nth_extend [OF "6.prems"(2) a(2)]
  have cond: "\<not> (a \<in> set st \<or> length h \<le> a)" using a by simp
  show ?case
  proof (cases "h ! a")
    case (CObj kvs)
    with "6.prems"(1) a obtain kvs0 where
      props: "snapshot_props h (a # st) kvs = Inr kvs0" and t: "t = JObj kvs0"
      by (auto split: sum.splits)
    from "6.IH"(1) [OF cond CObj props "6.prems"(2)]
    show ?thesis using a nth CObj t by simp
  next
    case (CArr xs)
    with "6.prems"(1) a obtain xs0 where
      elems: "snapshot_elems h (a # st) xs = Inr xs0" and t: "t = JArr xs0"
      by (auto split: sum.splits)
    from "6.IH"(2) [OF cond CArr elems "6.prems"(2)]
    show ?thesis using a nth CArr t by simp
  qed
next
  case (8 h st kv kvs)
  from "8.prems"(1) obtain v0 kvs0 where
    v: "snapshot h st (snd kv) = Inr v0" and rest: "snapshot_props h st kvs = Inr kvs0"
    and res: "kvs' = (fst kv, v0) # kvs0"
    by (auto split: sum.splits)
  from "8.IH"(1) [OF v "8.prems"(2)] "8.IH"(2) [OF v rest "8.prems"(2)] res
  show ?case by simp
next
  case (10 h st x xs)
  from "10.prems"(1) obtain v0 vs0 where
    v: "snapshot h st x = Inr v0" and rest: "snapshot_elems h st xs = Inr vs0"
    and res: "xs' = v0 # vs0"
    by (auto split: sum.splits)
  from "10.IH"(1) [OF v "10.prems"(2)] "10.IH"(2) [OF v rest "10.prems"(2)] res
  show ?case by simp
qed simp_all

text \<open>
  Claim C6: \<open>checkCompatibility\<close> does not change the caller's pipeline.  Whatever
  the call returns, tuples or an error, every cell that was in the store before the
  call holds what it held (the call only adds cells), and the pipeline reads as it
  did.
\<close>

theorem checkCompatibility_store_frame:
  assumes "checkCompatibility_store h ppl = (h', r)"
  shows "take (length h) h' = h \<and> snapshot h' [] ppl = snapshot h [] ppl"
proof -
  from assms have ext: "take (length h) h' = h"
    by (rule checkCompatibility_store_extends)
  have "snapshot h' [] ppl = snapshot h [] ppl"
  proof (cases "snapshot h [] ppl")
    case (Inl e)
    with assms have "h' = h"
      by (auto simp: checkCompatibility_store_def split: sum.splits if_splits)
    then show ?thesis by simp
  next
    case (Inr t)
    with snapshot_extend(1) [OF ext] show ?thesis by simp
  qed
  with ext show ?thesis by simp
qed

text \<open>
  The theorem on the pipeline \<open>[{$group: {_id: "$State", n: {$sum: 1}}}]\<close>, held in
  the cells 0 to 3: the call returns the tuple \<open>(n, count, count)\<close> and leaves the copy,
  without its \<open>_id\<close>, in the cells 4 to 7.
\<close>

theorem checkCompatibility_store_frame_witness:
  "checkCompatibility_store
     [CObj [(''$sum'', HNum 1)], CObj [(''_id'', HStr ''$State''), (''n'', HRef 0)],
      CObj [(''$group'', HRef 1)], CArr [HRef 2]] (HRef 3)
   = ([CObj [(''$sum'', HNum 1)], CObj [(''_id'', HStr ''$State''), (''n'', HRef 0)],
       CObj [(''$group'', HRef 1)], CArr [HRef 2],
       CObj [(''$sum'', HNum 1)], CObj [(''n'', HRef 4)],
       CObj [(''$group'', HRef 5)], CArr [HRef 6]],
      Inr [(''n'', ''count'', ''count'')])
   \<and> take 4
       [CObj [(''$sum'', HNum 1)], CObj [(''_id'', HStr ''$State''), (''n'', HRef 0)],
        CObj [(''$group'', HRef 1)], CArr [HRef 2],
        CObj [(''$sum'', HNum 1)], CObj [(''n'', HRef 4)],
        CObj [(''$group'', HRef 5)], CArr [HRef 6]]
     = [CObj [(''$sum'', HNum 1)], CObj [(''_id'', HStr ''$State''), (''n'', HRef 0)],
        CObj [(''$group'', HRef 1)], CArr [HRef 2]]
   \<and> snapshot
       [CObj [(''$sum'', HNum 1)], CObj [(''_id'', HStr ''$State''), (''n'', HRef 0)],
        CObj [(''$group'', HRef 1)], CArr [HRef 2],
        CObj [(''$sum'', HNum 1)], CObj [(''n'', HRef 4)],
        CObj [(''$group'', HRef 5)], CArr [HRef 6]] [] (HRef 3)
     = Inr (JArr [JObj [(''$group'',
                         JObj [(''_id'', JStr ''$State''), (''n'', JObj [(''$sum'', JNum 1)])])]])"
proof -
  have run: "checkCompatibility_store
     [CObj [(''$sum'', HNum 1)], CObj [(''_id'', HStr ''$State''), (''n'', HRef 0)],
      CObj [(''$group'', HRef 1)], CArr [HRef 2]] (HRef 3)
   = ([CObj [(''$sum'', HNum 1)], CObj [(''_id'', HStr ''$State''), (''n'', HRef 0)],
       CObj [(''$group'', HRef 1)], CArr [HRef 2],
       CObj [(''$sum'', HNum 1)], CObj [(''n'', HRef 4)],
       CObj [(''$group'', HRef 5)], CArr [HRef 6]],
      Inr [(''n'', ''count'', ''count'')])"
    by (simp add: checkCompatibility_store_def store_first_def store_keys_def store_prop_def
        store_delete_def obj_delete_def first_def scan_group_def includes_op_def
        supported_ops_def make_tuple_def at_def)
  from checkCompatibility_store_frame [OF run] run show ?thesis by simp
qed

subsection \<open>The store and the values\<close>

lemma snapshot_stack_mono:
  "snapshot h st v = Inr t \<Longrightarrow> set st' \<subseteq> set st \<Longrightarrow> snapshot h st' v = Inr t"
  "snapshot_props h st kvs = Inr kvs' \<Longrightarrow> set st' \<subseteq> set st \<Longrightarrow>
     snapshot_props h st' kvs = Inr kvs'"
  "snapshot_elems h st xs = Inr xs' \<Longrightarrow> set st' \<subseteq> set st \<Longrightarrow>
     snapshot_elems h st' xs = Inr xs'"
proof (induction h st v and h st kvs and h st xs arbitrary: t st' and kvs' st' and xs' st'
    rule: snapshot_snapshot_props_snapshot_elems.induct)
  case (6 h st a)
  from "6.prems"(1) have a: "a \<notin> set st" "a < length h"
    by (auto split: if_splits)
  have cond: "\<not> (a \<in> set st \<or> length h \<le> a)" using a by simp
  from "6.prems"(2) have sub: "set (a # st') \<subseteq> set (a # st)" by auto
  from a "6.prems"(2) have a': "a \<notin> set st'" by auto
  show ?case
  proof (cases "h ! a")
    case (CObj kvs)
    with "6.prems"(1) a obtain kvs0 where
      props: "snapshot_props h (a # st) kvs = Inr kvs0" and t: "t = JObj kvs0"
      by (auto split: sum.splits)
    from "6.IH"(1) [OF cond CObj props sub]
    show ?thesis using a a' CObj t by simp
  next
    case (CArr xs)
    with "6.prems"(1) a obtain xs0 where
      elems: "snapshot_elems h (a # st) xs = Inr xs0" and t: "t = JArr xs0"
      by (auto split: sum.splits)
    from "6.IH"(2) [OF cond CArr elems sub]
    show ?thesis using a a' CArr t by simp
  qed
next
  case (8 h st kv kvs)
  from "8.prems"(1) obtain v0 kvs0 where
    v: "snapshot h st (snd kv) = Inr v0" and rest: "snapshot_props h st kvs = Inr kvs0"
    and res: "kvs' = (fst kv, v0) # kvs0"
    by (auto split: sum.splits)
  from "8.IH"(1) [OF v "8.prems"(2)] "8.IH"(2) [OF v rest "8.prems"(2)] res
  show ?case by simp
next
  case (10 h st x xs)
  from "10.prems"(1) obtain v0 vs0 where
    v: "snapshot h st x = Inr v0" and rest: "snapshot_elems h st xs = Inr vs0"
    and res: "xs' = v0 # vs0"
    by (auto split: sum.splits)
  from "10.IH"(1) [OF v "10.prems"(2)] "10.IH"(2) [OF v rest "10.prems"(2)] res
  show ?case by simp
qed simp_all

lemma snapshot_unread:
  "snapshot h st v = Inr t \<Longrightarrow> b \<in> set st \<Longrightarrow> snapshot (h[b := c]) st v = Inr t"
  "snapshot_props h st kvs = Inr kvs' \<Longrightarrow> b \<in> set st \<Longrightarrow>
     snapshot_props (h[b := c]) st kvs = Inr kvs'"
  "snapshot_elems h st xs = Inr xs' \<Longrightarrow> b \<in> set st \<Longrightarrow>
     snapshot_elems (h[b := c]) st xs = Inr xs'"
proof (induction h st v and h st kvs and h st xs arbitrary: t and kvs' and xs'
    rule: snapshot_snapshot_props_snapshot_elems.induct)
  case (6 h st a)
  from "6.prems"(1) have a: "a \<notin> set st" "a < length h"
    by (auto split: if_splits)
  have cond: "\<not> (a \<in> set st \<or> length h \<le> a)" using a by simp
  from a "6.prems"(2) have ne: "b \<noteq> a" by auto
  from "6.prems"(2) have b: "b \<in> set (a # st)" by simp
  show ?case
  proof (cases "h ! a")
    case (CObj kvs)
    with "6.prems"(1) a obtain kvs0 where
      props: "snapshot_props h (a # st) kvs = Inr kvs0" and t: "t = JObj kvs0"
      by (auto split: sum.splits)
    from "6.IH"(1) [OF cond CObj props b]
    show ?thesis using a ne CObj t by simp
  next
    case (CArr xs)
    with "6.prems"(1) a obtain xs0 where
      elems: "snapshot_elems h (a # st) xs = Inr xs0" and t: "t = JArr xs0"
      by (auto split: sum.splits)
    from "6.IH"(2) [OF cond CArr elems b]
    show ?thesis using a ne CArr t by simp
  qed
next
  case (8 h st kv kvs)
  from "8.prems"(1) obtain v0 kvs0 where
    v: "snapshot h st (snd kv) = Inr v0" and rest: "snapshot_props h st kvs = Inr kvs0"
    and res: "kvs' = (fst kv, v0) # kvs0"
    by (auto split: sum.splits)
  from "8.IH"(1) [OF v "8.prems"(2)] "8.IH"(2) [OF v rest "8.prems"(2)] res
  show ?case by simp
next
  case (10 h st x xs)
  from "10.prems"(1) obtain v0 vs0 where
    v: "snapshot h st x = Inr v0" and rest: "snapshot_elems h st xs = Inr vs0"
    and res: "xs' = v0 # vs0"
    by (auto split: sum.splits)
  from "10.IH"(1) [OF v "10.prems"(2)] "10.IH"(2) [OF v rest "10.prems"(2)] res
  show ?case by simp
qed simp_all

lemma take_take_extend:
  "take (length h1) h2 = h1 \<Longrightarrow> take (length h0) h1 = h0 \<Longrightarrow> take (length h0) h2 = h0"
  by (rule take_extend)

lemma fresh_val_0: "fresh_val 0 v"
  by (cases v) simp_all

lemma fresh_cell_0: "fresh_cell 0 c"
  by (cases c) (simp_all add: list_all_iff fresh_val_0)

lemma parse_grows:
  "parse t h = (h1, v) \<Longrightarrow> take (length h) h1 = h"
  "parse_props kvs h = (h1, kvs') \<Longrightarrow> take (length h) h1 = h"
  "parse_elems xs h = (h1, xs') \<Longrightarrow> take (length h) h1 = h"
proof -
  have all: "list_all (fresh_cell 0) (drop 0 h)"
    by (simp add: list_all_iff fresh_cell_0)
  show "parse t h = (h1, v) \<Longrightarrow> take (length h) h1 = h"
    using parse_frame(1) [of t h h1 v 0] all by simp
  show "parse_props kvs h = (h1, kvs') \<Longrightarrow> take (length h) h1 = h"
    using parse_frame(2) [of kvs h h1 kvs' 0] all by simp
  show "parse_elems xs h = (h1, xs') \<Longrightarrow> take (length h) h1 = h"
    using parse_frame(3) [of xs h h1 xs' 0] all by simp
qed

lemma parse_snapshot:
  "parse t h = (h1, v) \<Longrightarrow> take (length h1) h2 = h1 \<Longrightarrow>
     list_all (\<lambda>s. s < length h \<or> length h1 \<le> s) st \<Longrightarrow> snapshot h2 st v = Inr t"
  "parse_props kvs h = (h1, kvs') \<Longrightarrow> take (length h1) h2 = h1 \<Longrightarrow>
     list_all (\<lambda>s. s < length h \<or> length h1 \<le> s) st \<Longrightarrow>
     snapshot_props h2 st kvs' = Inr kvs"
  "parse_elems xs h = (h1, xs') \<Longrightarrow> take (length h1) h2 = h1 \<Longrightarrow>
     list_all (\<lambda>s. s < length h \<or> length h1 \<le> s) st \<Longrightarrow>
     snapshot_elems h2 st xs' = Inr xs"
proof (induction t h and kvs h and xs h arbitrary: h1 v h2 st and h1 kvs' h2 st and h1 xs' h2 st
    rule: parse_parse_props_parse_elems.induct)
  case (6 kvs h)
  obtain h0 kvs0 where p: "parse_props kvs h = (h0, kvs0)" by (cases "parse_props kvs h")
  from "6.prems"(1) p have res: "h1 = h0 @ [CObj kvs0]" "v = HRef (length h0)" by simp_all
  from parse_grows(2) [OF p] have le: "length h \<le> length h0" by (rule take_length_le)
  from "6.prems"(2) res have ext: "take (length h0) h2 = h0"
    by (metis append_eq_conv_conj take_take_extend)
  from "6.prems"(2) res have cell: "length h0 < length h2" "h2 ! length h0 = CObj kvs0"
    using nth_extend [of h1 h2 "length h0"] by simp_all
  from "6.prems"(3) res le have notin: "length h0 \<notin> set st"
    by (auto simp: list_all_iff)
  from "6.prems"(3) res have "list_all (\<lambda>s. s < length h \<or> length h0 \<le> s) (length h0 # st)"
    by (auto simp: list_all_iff)
  from "6.IH" [OF p ext this] cell notin res show ?case by simp
next
  case (7 xs h)
  obtain h0 xs0 where p: "parse_elems xs h = (h0, xs0)" by (cases "parse_elems xs h")
  from "7.prems"(1) p have res: "h1 = h0 @ [CArr xs0]" "v = HRef (length h0)" by simp_all
  from parse_grows(3) [OF p] have le: "length h \<le> length h0" by (rule take_length_le)
  from "7.prems"(2) res have ext: "take (length h0) h2 = h0"
    by (metis append_eq_conv_conj take_take_extend)
  from "7.prems"(2) res have cell: "length h0 < length h2" "h2 ! length h0 = CArr xs0"
    using nth_extend [of h1 h2 "length h0"] by simp_all
  from "7.prems"(3) res le have notin: "length h0 \<notin> set st"
    by (auto simp: list_all_iff)
  from "7.prems"(3) res have "list_all (\<lambda>s. s < length h \<or> length h0 \<le> s) (length h0 # st)"
    by (auto simp: list_all_iff)
  from "7.IH" [OF p ext this] cell notin res show ?case by simp
next
  case (9 kv kvs h)
  obtain ha va where a: "parse (snd kv) h = (ha, va)" by (cases "parse (snd kv) h")
  obtain hb kvsb where b: "parse_props kvs ha = (hb, kvsb)" by (cases "parse_props kvs ha")
  from "9.prems"(1) a b have res: "h1 = hb" "kvs' = (fst kv, va) # kvsb" by simp_all
  note ga = parse_grows(1) [OF a] and gb = parse_grows(2) [OF b]
  from ga have lea: "length h \<le> length ha" by (rule take_length_le)
  from gb have leb: "length ha \<le> length hb" by (rule take_length_le)
  from "9.prems"(2) res gb have exta: "take (length ha) h2 = ha"
    by (simp add: take_take_extend)
  from "9.prems"(3) res leb have sta: "list_all (\<lambda>s. s < length h \<or> length ha \<le> s) st"
    by (auto simp: list_all_iff)
  from "9.prems"(3) res lea have stb: "list_all (\<lambda>s. s < length ha \<or> length hb \<le> s) st"
    by (auto simp: list_all_iff)
  from "9.prems"(2) res have extb: "take (length hb) h2 = hb" by simp
  from "9.IH"(1) [OF a exta sta] "9.IH"(2) [OF a [symmetric] b extb stb] res
  show ?case by simp
next
  case (11 x xs h)
  obtain ha va where a: "parse x h = (ha, va)" by (cases "parse x h")
  obtain hb vsb where b: "parse_elems xs ha = (hb, vsb)" by (cases "parse_elems xs ha")
  from "11.prems"(1) a b have res: "h1 = hb" "xs' = va # vsb" by simp_all
  note ga = parse_grows(1) [OF a] and gb = parse_grows(3) [OF b]
  from ga have lea: "length h \<le> length ha" by (rule take_length_le)
  from gb have leb: "length ha \<le> length hb" by (rule take_length_le)
  from "11.prems"(2) res gb have exta: "take (length ha) h2 = ha"
    by (simp add: take_take_extend)
  from "11.prems"(3) res leb have sta: "list_all (\<lambda>s. s < length h \<or> length ha \<le> s) st"
    by (auto simp: list_all_iff)
  from "11.prems"(3) res lea have stb: "list_all (\<lambda>s. s < length ha \<or> length hb \<le> s) st"
    by (auto simp: list_all_iff)
  from "11.prems"(2) res have extb: "take (length hb) h2 = hb" by simp
  from "11.IH"(1) [OF a exta sta] "11.IH"(2) [OF a [symmetric] b extb stb] res
  show ?case by simp
qed auto

lemma snapshot_props_keys:
  "snapshot_props h st kvs = Inr kvs' \<Longrightarrow> map fst kvs' = map fst kvs"
  by (induction kvs arbitrary: kvs') (auto split: sum.splits)

lemma snapshot_elems_length:
  "snapshot_elems h st xs = Inr xs' \<Longrightarrow> length xs' = length xs"
  by (induction xs arbitrary: xs') (auto split: sum.splits)

lemma snapshot_props_lookup:
  "snapshot_props h st kvs = Inr kvs' \<Longrightarrow>
   snapshot h st (case map_of kvs name of None \<Rightarrow> HUndefined | Some x \<Rightarrow> x)
     = Inr (obj_get kvs' name)"
proof (induction kvs arbitrary: kvs')
  case Nil
  then show ?case by (simp add: obj_get_def)
next
  case (Cons kv kvs)
  from Cons.prems obtain v0 kvs0 where
    v: "snapshot h st (snd kv) = Inr v0" and rest: "snapshot_props h st kvs = Inr kvs0"
    and res: "kvs' = (fst kv, v0) # kvs0"
    by (auto split: sum.splits)
  from Cons.IH [OF rest] v res show ?case
    by (cases kv) (simp add: obj_get_def)
qed

lemma snapshot_props_delete:
  "snapshot_props h st kvs = Inr kvs' \<Longrightarrow>
   snapshot_props h st (obj_delete name kvs) = Inr (obj_delete name kvs')"
proof (induction kvs arbitrary: kvs')
  case Nil
  then show ?case by (simp add: obj_delete_def)
next
  case (Cons kv kvs)
  from Cons.prems obtain v0 kvs0 where
    v: "snapshot h st (snd kv) = Inr v0" and rest: "snapshot_props h st kvs = Inr kvs0"
    and res: "kvs' = (fst kv, v0) # kvs0"
    by (auto split: sum.splits)
  from Cons.IH [OF rest] v res show ?case
    by (cases kv) (simp add: obj_delete_def)
qed

lemma store_keys_snapshot:
  assumes "snapshot h st v = Inr t"
  shows "store_keys h v = object_keys t"
proof (cases v)
  case (HRef a)
  with assms have a: "a \<notin> set st" "a < length h" by (auto split: if_splits)
  show ?thesis
  proof (cases "h ! a")
    case (CObj kvs)
    with assms HRef a show ?thesis
      by (auto simp: store_keys_def dest: snapshot_props_keys split: sum.splits)
  next
    case (CArr xs)
    with assms HRef a show ?thesis
      by (auto simp: store_keys_def dest: snapshot_elems_length split: sum.splits)
  qed
qed (use assms in \<open>auto simp: store_keys_def\<close>)

lemma store_first_snapshot:
  assumes "snapshot h st v = Inr (JArr xs)"
  shows "\<exists>x. store_first h v = Inr x \<and> snapshot h [] x = Inr (at xs 0)"
proof (cases v)
  case (HRef a)
  with assms have a: "a \<notin> set st" "a < length h" by (auto split: if_splits)
  show ?thesis
  proof (cases "h ! a")
    case (CObj kvs)
    with assms HRef a show ?thesis by (auto split: sum.splits)
  next
    case (CArr hs)
    with assms HRef a have elems: "snapshot_elems h (a # st) hs = Inr xs"
      by (auto split: sum.splits)
    show ?thesis
    proof (cases hs)
      case Nil
      with elems HRef a CArr show ?thesis by (simp add: store_first_def at_def)
    next
      case (Cons x hs')
      with elems obtain t0 ts where
        x: "snapshot h (a # st) x = Inr t0" and xs: "xs = t0 # ts"
        by (auto split: sum.splits)
      from snapshot_stack_mono(1) [OF x, of "[]"] have "snapshot h [] x = Inr t0" by simp
      with HRef a CArr Cons xs show ?thesis by (simp add: store_first_def at_def)
    qed
  qed
qed (use assms in auto)

lemma store_prop_snapshot:
  assumes "snapshot h st v = Inr t"
  shows "case get_prop t name of
           Inl e \<Rightarrow> store_prop h v name = Inl e
         | Inr tv \<Rightarrow> (\<exists>x. store_prop h v name = Inr x \<and> snapshot h [] x = Inr tv)"
proof (cases v)
  case (HRef a)
  with assms have a: "a \<notin> set st" "a < length h" by (auto split: if_splits)
  show ?thesis
  proof (cases "h ! a")
    case (CObj kvs)
    with assms HRef a obtain kvs' where
      props: "snapshot_props h (a # st) kvs = Inr kvs'" and t: "t = JObj kvs'"
      by (auto split: sum.splits)
    from snapshot_stack_mono(1) [OF snapshot_props_lookup [OF props, of name], of "[]"]
    show ?thesis using HRef a CObj t by (simp add: store_prop_def)
  next
    case (CArr hs)
    with assms HRef a show ?thesis
      by (auto simp: store_prop_def split: sum.splits)
  qed
qed (use assms in \<open>auto simp: store_prop_def\<close>)

lemma store_delete_snapshot:
  assumes "snapshot h [] v = Inr t"
  shows "case delete_prop t name of
           Inl e \<Rightarrow> store_delete h v name = Inl e
         | Inr t' \<Rightarrow> (\<exists>h'. store_delete h v name = Inr h' \<and> snapshot h' [] v = Inr t')"
proof (cases v)
  case (HRef a)
  with assms have a: "a < length h" by (auto split: if_splits)
  show ?thesis
  proof (cases "h ! a")
    case (CObj kvs)
    with assms HRef a obtain kvs' where
      props: "snapshot_props h [a] kvs = Inr kvs'" and t: "t = JObj kvs'"
      by (auto split: sum.splits)
    let ?h' = "h[a := CObj (obj_delete name kvs)]"
    from snapshot_unread(2) [OF props, of a] have "snapshot_props ?h' [a] kvs = Inr kvs'"
      by simp
    then have "snapshot_props ?h' [a] (obj_delete name kvs) = Inr (obj_delete name kvs')"
      by (rule snapshot_props_delete)
    with HRef a CObj t show ?thesis by (simp add: store_delete_def)
  next
    case (CArr hs)
    with assms HRef a show ?thesis
      by (auto simp: store_delete_def split: sum.splits)
  qed
qed (use assms in \<open>auto simp: store_delete_def\<close>)

text \<open>
  The two descriptions of \<open>checkCompatibility\<close> agree: on a store in which the
  pipeline reads as the array \<open>xs\<close>, the call answers what \<open>checkCompatibility xs\<close>
  answers on the value.
\<close>

theorem checkCompatibility_store_refines:
  assumes "snapshot h [] ppl = Inr (JArr xs)"
  shows "snd (checkCompatibility_store h ppl) = checkCompatibility xs"
proof -
  from store_first_snapshot [OF assms] obtain stage where
    stage: "store_first h ppl = Inr stage" "snapshot h [] stage = Inr (at xs 0)" by blast
  note keys = store_keys_snapshot [OF stage(2)]
  show ?thesis
  proof (cases "object_keys (at xs 0)")
    case (Inl e)
    with stage keys show ?thesis
      by (simp add: checkCompatibility_store_def checkCompatibility_def)
  next
    case (Inr ks)
    show ?thesis
    proof (cases "first ks = Some ''$group''")
      case False
      with Inr stage keys show ?thesis
        by (simp add: checkCompatibility_store_def checkCompatibility_def)
    next
      case True
      obtain h1 ppl' where parse: "parse (json_clone (JArr xs)) h = (h1, ppl')"
        by (cases "parse (json_clone (JArr xs)) h")
      from parse_snapshot(1) [OF parse, of h1 "[]"]
      have clone: "snapshot h1 [] ppl' = Inr (JArr (json_clone_elems xs))" by simp
      from store_first_snapshot [OF clone] obtain stage' where
        stage': "store_first h1 ppl' = Inr stage'"
          "snapshot h1 [] stage' = Inr (at (json_clone_elems xs) 0)" by blast
      note grp = store_prop_snapshot [OF stage'(2), of "''$group''"]
      have start: "checkCompatibility_store h ppl =
          (case store_prop h1 stage' ''$group'' of
             Inl e \<Rightarrow> (h1, Inl e)
           | Inr group0 \<Rightarrow>
               (case store_delete h1 group0 ''_id'' of
                  Inl e \<Rightarrow> (h1, Inl e)
                | Inr h2 \<Rightarrow>
                    (h2, case snapshot h2 [] group0 of
                           Inl e \<Rightarrow> Inl e
                         | Inr grp \<Rightarrow> scan_group grp)))"
        using stage keys Inr True assms parse stage'(1)
        by (simp add: checkCompatibility_store_def)
      have pure: "checkCompatibility xs =
          (case get_prop (at (json_clone_elems xs) 0) ''$group'' of
             Inl e \<Rightarrow> Inl e
           | Inr group0 \<Rightarrow>
               (case delete_prop group0 ''_id'' of
                  Inl e \<Rightarrow> Inl e
                | Inr grp \<Rightarrow> scan_group grp))"
        using Inr True by (simp add: checkCompatibility_def)
      show ?thesis
      proof (cases "get_prop (at (json_clone_elems xs) 0) ''$group''")
        case (Inl e)
        with grp start pure show ?thesis by simp
      next
        case g: (Inr tg)
        with grp obtain group0 where
          group0: "store_prop h1 stage' ''$group'' = Inr group0" "snapshot h1 [] group0 = Inr tg"
          by auto
        note del = store_delete_snapshot [OF group0(2), of "''_id''"]
        show ?thesis
        proof (cases "delete_prop tg ''_id''")
          case (Inl e)
          with del start pure g group0 show ?thesis by simp
        next
          case (Inr tg')
          with del obtain h2 where
            "store_delete h1 group0 ''_id'' = Inr h2" "snapshot h2 [] group0 = Inr tg'"
            by auto
          with start pure g group0 Inr show ?thesis by simp
        qed
      qed
    qed
  qed
qed


text \<open>The theorem on the store of the example above.\<close>

theorem checkCompatibility_store_refines_witness:
  "snapshot
     [CObj [(''$sum'', HNum 1)], CObj [(''_id'', HStr ''$State''), (''n'', HRef 0)],
      CObj [(''$group'', HRef 1)], CArr [HRef 2]] [] (HRef 3)
     = Inr (JArr [JObj [(''$group'',
                         JObj [(''_id'', JStr ''$State''), (''n'', JObj [(''$sum'', JNum 1)])])]])
   \<and> snd (checkCompatibility_store
       [CObj [(''$sum'', HNum 1)], CObj [(''_id'', HStr ''$State''), (''n'', HRef 0)],
        CObj [(''$group'', HRef 1)], CArr [HRef 2]] (HRef 3))
     = Inr [(''n'', ''count'', ''count'')]
   \<and> checkCompatibility
       [JObj [(''$group'', JObj [(''_id'', JStr ''$State''), (''n'', JObj [(''$sum'', JNum 1)])])]]
     = Inr [(''n'', ''count'', ''count'')]"
proof -
  have read: "snapshot
     [CObj [(''$sum'', HNum 1)], CObj [(''_id'', HStr ''$State''), (''n'', HRef 0)],
      CObj [(''$group'', HRef 1)], CArr [HRef 2]] [] (HRef 3)
     = Inr (JArr [JObj [(''$group'',
                         JObj [(''_id'', JStr ''$State''), (''n'', JObj [(''$sum'', JNum 1)])])]])"
    by simp
  have pure: "checkCompatibility
       [JObj [(''$group'', JObj [(''_id'', JStr ''$State''), (''n'', JObj [(''$sum'', JNum 1)])])]]
     = Inr [(''n'', ''count'', ''count'')]"
    by (simp add: obj_simps check_simps)
  from checkCompatibility_store_refines [OF read] read pure show ?thesis by simp
qed

end
